theory Spec2Isabelle
  imports Main
begin

section \<open>mergelogga: a shallow embedding of \<open>src/bin/mergelogga.js\<close>\<close>

text \<open>
  The program reads an existing changelog, walks \<open>git log\<close> output newest-first,
  groups commit hashes under version tags, fetches the commit messages and prepends the
  rendered blocks to the changelog.

  Modelling decisions, valid for the whole development:
  \<^item> A JavaScript string is a \<open>string\<close>; a character is a code unit below 256, so the
    white space class \<open>\s\<close> is the seven characters 9 to 13, 32 and 160.
  \<^item> \<open>undefined\<close>, \<open>null\<close> and \<open>false\<close> in a variable that otherwise holds a string are
    \<open>None\<close>; JavaScript truthiness of such a variable is \<open>truthy\<close>.
  \<^item> A child process is what it delivers: the list of its \<open>data\<close> events and the code of its
    \<open>close\<close> event (\<open>None\<close> is \<open>null\<close>, the code of a process ended by a signal).
  \<^item> \<open>console.log\<close> output is not modelled; \<open>console.error\<close> output and the exit status are.
\<close>

subsection \<open>Characters and the string primitives of JavaScript and lodash\<close>

definition LF :: char where
  "LF = CHR 0x0A"

definition CR :: char where
  "CR = CHR 0x0D"

text \<open>The class \<open>\s\<close> of a regular expression, which is also what \<open>_.trim\<close> removes.\<close>

definition isSpace :: "char \<Rightarrow> bool" where
  "isSpace c = (c \<in> set [CHR 0x09, CHR 0x0A, CHR 0x0B, CHR 0x0C, CHR 0x0D, CHR 0x20, CHR 0xA0])"

text \<open>The class \<open>.\<close> excludes the line terminators.\<close>

definition isLineTerminator :: "char \<Rightarrow> bool" where
  "isLineTerminator c = (c = LF \<or> c = CR)"

definition isDigit :: "char \<Rightarrow> bool" where
  "isDigit c = (c \<in> set ''0123456789'')"

text \<open>
  Canonicalisation of a character under the flag \<open>i\<close>: only the letters a to z change, and
  no character above 127 is identified with one below.
\<close>

definition toUpper :: "char \<Rightarrow> char" where
  "toUpper c =
     (case map_of (zip ''abcdefghijklmnopqrstuvwxyz'' ''ABCDEFGHIJKLMNOPQRSTUVWXYZ'') c of
        None \<Rightarrow> c
      | Some u \<Rightarrow> u)"

text \<open>\<open>_.trim(s)\<close>\<close>

definition trim :: "string \<Rightarrow> string" where
  "trim s = rev (dropWhile isSpace (rev (dropWhile isSpace s)))"

text \<open>Pushing a character in front of the first piece of a split.\<close>

fun cons_first :: "char \<Rightarrow> string list \<Rightarrow> string list" where
  "cons_first c [] = [[c]]"
| "cons_first c (p # ps) = (c # p) # ps"

text \<open>\<open>s.split(sep)\<close> for a separator of one character.\<close>

fun split_char :: "char \<Rightarrow> string \<Rightarrow> string list" where
  "split_char sep [] = [[]]"
| "split_char sep (c # cs) =
     (if c = sep then [] # split_char sep cs else cons_first c (split_char sep cs))"

text \<open>
  \<open>s.split(/(?:\r?\n)/g)\<close>: a line ends at a line feed, and a carriage return directly
  before the line feed belongs to the separator.
\<close>

fun split_lines :: "string \<Rightarrow> string list" where
  "split_lines [] = [[]]"
| "split_lines (c # cs) =
     (if c = LF then [] # split_lines cs
      else if c = CR \<and> take 1 cs = [LF] then [] # split_lines (drop 1 cs)
      else cons_first c (split_lines cs))"

text \<open>
  The separator \<open>/\s*,\s*/\<close> matched at the start of a string: the rest of the string after
  the match. White space is taken greedily; a comma is not white space, so no shorter run
  can match.
\<close>

definition match_sep :: "string \<Rightarrow> string option" where
  "match_sep s =
     (case dropWhile isSpace s of
        [] \<Rightarrow> None
      | c # r \<Rightarrow> if c = CHR '','' then Some (dropWhile isSpace r) else None)"

lemma match_sep_shorter: "match_sep s = Some r \<Longrightarrow> length r < length s"
proof -
  assume a: "match_sep s = Some r"
  then obtain c r0 where d: "dropWhile isSpace s = c # r0" and r: "r = dropWhile isSpace r0"
    by (auto simp: match_sep_def split: list.splits if_splits)
  have "length r \<le> length r0" using r by (simp add: length_dropWhile_le)
  moreover have "length (c # r0) \<le> length s"
    using length_dropWhile_le [of isSpace s] d by simp
  ultimately show ?thesis by simp
qed

text \<open>
  \<open>s.split(/\s*,\s*/)\<close>, as the split algorithm runs: \<open>cur\<close> is the piece being read; at every
  position the separator is tried, and where it fails the character joins the piece.
\<close>

function split_refs_from :: "string \<Rightarrow> string \<Rightarrow> string list" where
  "split_refs_from cur s =
     (case s of
        [] \<Rightarrow> [cur]
      | c # cs \<Rightarrow>
          (case match_sep s of
             Some r \<Rightarrow> cur # split_refs_from [] r
           | None \<Rightarrow> split_refs_from (cur @ [c]) cs))"
  by pat_completeness auto
termination
  by (relation "measure (\<lambda>(cur, s). length s)") (auto dest: match_sep_shorter)

definition split_refs :: "string \<Rightarrow> string list" where
  "split_refs s = split_refs_from [] s"

text \<open>A literal matched at the start of a string under the flag \<open>i\<close>: the rest after it.\<close>

fun ci_prefix :: "string \<Rightarrow> string \<Rightarrow> string option" where
  "ci_prefix [] s = Some s"
| "ci_prefix (p # ps) [] = None"
| "ci_prefix (p # ps) (c # cs) =
     (if toUpper c = toUpper p then ci_prefix ps cs else None)"

text \<open>Truthiness of a variable that holds a string or \<open>undefined\<close> (or \<open>false\<close>).\<close>

definition truthy :: "string option \<Rightarrow> bool" where
  "truthy v = (case v of None \<Rightarrow> False | Some s \<Rightarrow> s \<noteq> [])"

text \<open>Truthiness of the code of a \<open>close\<close> event.\<close>

definition truthy_code :: "nat option \<Rightarrow> bool" where
  "truthy_code code = (case code of None \<Rightarrow> False | Some n \<Rightarrow> n \<noteq> 0)"

subsection \<open>The version pattern\<close>

text \<open>
  \<open>versionRegExp = /^[0-9]+\.[0-9]+(\.[0-9]+(\.[0-9]+)?)?$/\<close>. The expression is
  deterministic: after the longest run of digits the next character is no digit, and an
  optional group that is skipped must be followed by the end of the string.
\<close>

definition digits1 :: "string \<Rightarrow> string option" where
  "digits1 s = (if takeWhile isDigit s = [] then None else Some (dropWhile isDigit s))"

definition dot_digits :: "string \<Rightarrow> string option" where
  "dot_digits s =
     (case s of
        [] \<Rightarrow> None
      | c # r \<Rightarrow> if c = CHR ''.'' then digits1 r else None)"

definition versionRegExp :: "string \<Rightarrow> bool" where
  "versionRegExp s =
     (case digits1 s of
        None \<Rightarrow> False
      | Some r1 \<Rightarrow>
          (case dot_digits r1 of
             None \<Rightarrow> False
           | Some r2 \<Rightarrow>
               r2 = [] \<or>
               (case dot_digits r2 of
                  None \<Rightarrow> False
                | Some r3 \<Rightarrow>
                    r3 = [] \<or>
                    (case dot_digits r3 of
                       None \<Rightarrow> False
                     | Some r4 \<Rightarrow> r4 = []))))"

subsection \<open>\<open>getTagVersion\<close>\<close>

text \<open>
  \<open>/tag:[\s]+v?(.*)/i\<close> matched at the start of a string: the text of group 1. After
  \<open>tag:\<close> and at least one white space character everything else always matches, so the
  greedy choices stand.
\<close>

definition tag_here :: "string \<Rightarrow> string option" where
  "tag_here s =
     (case ci_prefix ''tag:'' s of
        None \<Rightarrow> None
      | Some r \<Rightarrow>
          if takeWhile isSpace r = [] then None
          else
            (let r1 = dropWhile isSpace r;
                 r2 = (case r1 of
                         [] \<Rightarrow> []
                       | c # cs \<Rightarrow> if toUpper c = CHR ''V'' then cs else r1)
             in Some (takeWhile (\<lambda>c. \<not> isLineTerminator c) r2)))"

text \<open>\<open>version.match(/tag:[\s]+v?(.*)/i)\<close>: group 1 of the leftmost match.\<close>

fun tag_match :: "string \<Rightarrow> string option" where
  "tag_match [] = tag_here []"
| "tag_match (c # cs) =
     (case tag_here (c # cs) of
        Some m \<Rightarrow> Some m
      | None \<Rightarrow> tag_match cs)"

text \<open>The callback of \<open>_.reduce\<close> in \<open>getTagVersion\<close>.\<close>

definition tag_step :: "string option \<Rightarrow> string \<Rightarrow> string option" where
  "tag_step tag version' =
     (case tag_match version' of
        None \<Rightarrow> tag
      | Some m \<Rightarrow> if \<not> truthy tag \<and> versionRegExp m then Some m else tag)"

text \<open>\<open>refNames ? refNames.split(/\s*,\s*/) : []\<close>\<close>

definition decorations :: "string option \<Rightarrow> string list" where
  "decorations refNames =
     (case refNames of
        None \<Rightarrow> []
      | Some r \<Rightarrow> if r = [] then [] else split_refs r)"

definition getTagVersion :: "string option \<Rightarrow> string option" where
  "getTagVersion refNames = foldl tag_step None (decorations refNames)"

text \<open>
  What one decoration contributes: the captured text when the decoration matches the tag
  pattern and the captured text is a version.
\<close>

definition decoration_tag :: "string \<Rightarrow> string option" where
  "decoration_tag d =
     (case tag_match d of
        None \<Rightarrow> None
      | Some m \<Rightarrow> if versionRegExp m then Some m else None)"

fun first_tag :: "string list \<Rightarrow> string option" where
  "first_tag [] = None"
| "first_tag (d # ds) =
     (case decoration_tag d of
        Some m \<Rightarrow> Some m
      | None \<Rightarrow> first_tag ds)"

text \<open>
  The tag pattern as the specification words it, \<open>tag:\s*v?(<version>)\<close>, with zero or more
  white space characters after the colon; everything else as in \<open>tag_here\<close>.
\<close>

definition spec_tag_here :: "string \<Rightarrow> string option" where
  "spec_tag_here s =
     (case ci_prefix ''tag:'' s of
        None \<Rightarrow> None
      | Some r \<Rightarrow>
          (let r1 = dropWhile isSpace r;
               r2 = (case r1 of
                       [] \<Rightarrow> []
                     | c # cs \<Rightarrow> if toUpper c = CHR ''V'' then cs else r1)
           in Some (takeWhile (\<lambda>c. \<not> isLineTerminator c) r2)))"

fun spec_tag_match :: "string \<Rightarrow> string option" where
  "spec_tag_match [] = spec_tag_here []"
| "spec_tag_match (c # cs) =
     (case spec_tag_here (c # cs) of
        Some m \<Rightarrow> Some m
      | None \<Rightarrow> spec_tag_match cs)"

definition spec_decoration_tag :: "string \<Rightarrow> string option" where
  "spec_decoration_tag d =
     (case spec_tag_match d of
        None \<Rightarrow> None
      | Some m \<Rightarrow> if versionRegExp m then Some m else None)"

fun spec_first_tag :: "string list \<Rightarrow> string option" where
  "spec_first_tag [] = None"
| "spec_first_tag (d # ds) =
     (case spec_decoration_tag d of
        Some m \<Rightarrow> Some m
      | None \<Rightarrow> spec_first_tag ds)"

text \<open>
  A decoration as \<open>git log\<close> writes it under \<open>%D\<close>: wherever \<open>tag:\<close> stands (in any
  case), a white space character follows. Git writes a tag as \<open>tag: <name>\<close>, and a ref name
  cannot contain a colon.
\<close>

fun tag_spaced :: "string \<Rightarrow> bool" where
  "tag_spaced [] = True"
| "tag_spaced (c # cs) =
     ((case ci_prefix ''tag:'' (c # cs) of
         None \<Rightarrow> True
       | Some r \<Rightarrow> takeWhile isSpace r \<noteq> []) \<and>
      tag_spaced cs)"

subsection \<open>Data of the pipeline\<close>

text \<open>The command line options the functions read.\<close>

record options =
  allCommits :: bool
  overwriteChangelog :: bool
  startVersion :: "string option"
  shortCommitMessage :: bool

record versioned =
  version :: string

record versionWithCommits = versioned +
  commits :: "string list"

record versionWithMessages = versioned +
  messages :: "string list"

text \<open>An exit code in an error message: \<open>'...' + code\<close>.\<close>

function show_nat :: "nat \<Rightarrow> string" where
  "show_nat n =
     (if n < 10 then [''0123456789'' ! n]
      else show_nat (n div 10) @ [''0123456789'' ! (n mod 10)])"
  by pat_completeness auto
termination
  by (relation "measure (\<lambda>n. n)") auto

text \<open>
  \<open>_.forEach(xs, f)\<close> over a state: the callback returns the new state and whether the
  iteration goes on (\<open>return false\<close> ends it).
\<close>

fun forEach :: "('s \<Rightarrow> 'a \<Rightarrow> 's \<times> bool) \<Rightarrow> 's \<Rightarrow> 'a list \<Rightarrow> 's" where
  "forEach f s [] = s"
| "forEach f s (x # xs) =
     (case f s x of
        (s', continue) \<Rightarrow> if continue then forEach f s' xs else s')"

subsection \<open>\<open>getVersionsWithCommits\<close>\<close>

text \<open>The variables of the closure.\<close>

record segmenter =
  versionsWithCommits :: "versionWithCommits list"
  currentCommits :: "string list"
  currentVersion :: "string option"
  processKilled :: bool

definition segmenter_init :: "string option \<Rightarrow> segmenter" where
  "segmenter_init start =
     \<lparr>versionsWithCommits = [], currentCommits = [], currentVersion = start,
      processKilled = False\<rparr>"

text \<open>\<open>parts[0]\<close> and \<open>parts[1]\<close>; \<open>split\<close> never returns an empty array.\<close>

definition parts0 :: "string list \<Rightarrow> string" where
  "parts0 parts = (case parts of [] \<Rightarrow> [] | p # _ \<Rightarrow> p)"

definition parts1 :: "string list \<Rightarrow> string option" where
  "parts1 parts = (case parts of p # q # _ \<Rightarrow> Some q | _ \<Rightarrow> None)"

text \<open>What the callback computes from a line before it looks at the state.\<close>

definition line_hashes :: "string \<Rightarrow> string list" where
  "line_hashes line = split_char (CHR '' '') (parts0 (split_char (CHR ''#'') (trim line)))"

definition line_hash :: "string \<Rightarrow> string" where
  "line_hash line = parts0 (line_hashes line)"

definition line_version :: "string \<Rightarrow> string option" where
  "line_version line = getTagVersion (parts1 (split_char (CHR ''#'') (trim line)))"

text \<open>
  \<open>if (currentVersion) versionsWithCommits.push({version: currentVersion, commits:
  currentCommits})\<close>: the list after the statement.
\<close>

definition push_current :: "segmenter \<Rightarrow> versionWithCommits list" where
  "push_current s =
     (case currentVersion s of
        None \<Rightarrow> versionsWithCommits s
      | Some v \<Rightarrow>
          if v = [] then versionsWithCommits s
          else versionsWithCommits s @ [\<lparr>version = v, commits = currentCommits s\<rparr>])"

text \<open>The callback of \<open>_.forEach\<close> in the \<open>data\<close> handler, for one line.\<close>

definition on_line :: "bool \<Rightarrow> string option \<Rightarrow> segmenter \<Rightarrow> string \<Rightarrow> segmenter \<times> bool" where
  "on_line all until s line =
     (let hashes = line_hashes line;
          version' = line_version line
      in if truthy version' \<and> version' = until
         then (s\<lparr>processKilled := True\<rparr>, False)
         else
           (let s1 = (if truthy version'
                      then s\<lparr>versionsWithCommits := push_current s,
                             currentCommits := [],
                             currentVersion := version'\<rparr>
                      else s);
                s2 = (if parts0 hashes \<noteq> [] \<and> (all \<or> 2 < length hashes)
                      then s1\<lparr>currentCommits := currentCommits s1 @ [parts0 hashes]\<rparr>
                      else s1)
            in (s2, True)))"

text \<open>The \<open>data\<close> handler.\<close>

definition on_data :: "bool \<Rightarrow> string option \<Rightarrow> segmenter \<Rightarrow> string \<Rightarrow> segmenter" where
  "on_data all until s data =
     (if processKilled s then s
      else forEach (on_line all until) s (split_lines data))"

text \<open>The \<open>close\<close> handler: the arguments of the callback, an error or the list.\<close>

definition on_close :: "segmenter \<Rightarrow> nat option \<Rightarrow> string + versionWithCommits list" where
  "on_close s code =
     (case code of
        None \<Rightarrow> Inr (push_current s)
      | Some n \<Rightarrow>
          if n \<noteq> 0
          then Inl (''Unable to get merge commits. Git errored with code #'' @ show_nat n)
          else Inr (push_current s))"

text \<open>
  \<open>getVersionsWithCommits\<close>, given what \<open>git log\<close> delivers: its \<open>data\<close> events in order and
  the code of its \<open>close\<close> event. \<open>process.kill()\<close> changes only what the process delivers
  afterwards, and the handler ignores that by \<open>processKilled\<close>.
\<close>

definition getVersionsWithCommits ::
  "bool \<Rightarrow> string option \<Rightarrow> string option \<Rightarrow> string list \<Rightarrow> nat option
   \<Rightarrow> string + versionWithCommits list" where
  "getVersionsWithCommits all until start chunks code =
     on_close (foldl (on_data all until) (segmenter_init start) chunks) code"

text \<open>The lines the \<open>data\<close> events deliver, in order.\<close>

definition all_lines :: "string list \<Rightarrow> string list" where
  "all_lines chunks = concat (map split_lines chunks)"

text \<open>A line that bears the tag of the resume version.\<close>

definition resume_line :: "string option \<Rightarrow> string \<Rightarrow> bool" where
  "resume_line until line = (line_version line \<noteq> None \<and> line_version line = until)"

text \<open>The retention test of a line, and the hashes a run of lines retains.\<close>

definition retained :: "bool \<Rightarrow> string \<Rightarrow> bool" where
  "retained all line = (line_hash line \<noteq> [] \<and> (all \<or> 2 < length (line_hashes line)))"

definition retained_hashes :: "bool \<Rightarrow> string list \<Rightarrow> string list" where
  "retained_hashes all ls = map line_hash (filter (retained all) ls)"

text \<open>The tags the lines bear, in order.\<close>

definition detected_tags :: "string list \<Rightarrow> string list" where
  "detected_tags ls = concat (map (\<lambda>l. case line_version l of None \<Rightarrow> [] | Some v \<Rightarrow> [v]) ls)"

text \<open>The effect of one line on the closure's variables, whether or not it is still read.\<close>

definition seg_step :: "bool \<Rightarrow> string option \<Rightarrow> segmenter \<Rightarrow> string \<Rightarrow> segmenter" where
  "seg_step all until s line = (if processKilled s then s else fst (on_line all until s line))"

subsection \<open>\<open>getMessageForCommit\<close>\<close>

text \<open>\<open>/^(#\s*)?Conflicts:/i\<close>: a line that starts with \<open>#\<close> can only match through the group.\<close>

definition conflicts_re :: "string \<Rightarrow> bool" where
  "conflicts_re s =
     (case s of
        [] \<Rightarrow> False
      | c # cs \<Rightarrow>
          if c = CHR ''#'' then ci_prefix ''Conflicts:'' (dropWhile isSpace cs) \<noteq> None
          else ci_prefix ''Conflicts:'' s \<noteq> None)"

text \<open>\<open>/^Merge (remote-tracking )?branch .*/i\<close>: with the optional group, then without it.\<close>

definition merge_branch_re :: "string \<Rightarrow> bool" where
  "merge_branch_re s =
     (case ci_prefix ''Merge '' s of
        None \<Rightarrow> False
      | Some r \<Rightarrow>
          (case ci_prefix ''remote-tracking '' r of
             None \<Rightarrow> False
           | Some r' \<Rightarrow> ci_prefix ''branch '' r' \<noteq> None)
          \<or> ci_prefix ''branch '' r \<noteq> None)"

text \<open>\<open>/^See merge request !.*/i\<close>\<close>

definition see_mr_re :: "string \<Rightarrow> bool" where
  "see_mr_re s = (ci_prefix ''See merge request !'' s \<noteq> None)"

text \<open>The variables of the closure.\<close>

record resolver =
  message :: "string list"
  isMergeRequest :: bool
  foundConflict :: bool

definition resolver_init :: resolver where
  "resolver_init = \<lparr>message = [], isMergeRequest = False, foundConflict = False\<rparr>"

text \<open>
  The callback of \<open>_.reduce\<close> in the \<open>data\<close> handler: the closure's variables and the
  accumulator \<open>filtered\<close>, before and after one line.
\<close>

definition message_line :: "resolver \<times> string list \<Rightarrow> string \<Rightarrow> resolver \<times> string list" where
  "message_line acc line0 =
     (case acc of
        (st, filtered) \<Rightarrow>
          (let line = trim line0;
               st1 = (if conflicts_re line then st\<lparr>foundConflict := True\<rparr> else st)
           in if foundConflict st1 then (st1, filtered)
              else if merge_branch_re line then (st1, filtered)
              else if see_mr_re line then (st1\<lparr>isMergeRequest := True\<rparr>, filtered)
              else if 0 < length line then (st1, filtered @ [line])
              else (st1, filtered)))"

text \<open>The \<open>data\<close> handler: \<open>message = message.concat(lines)\<close>.\<close>

definition message_data :: "resolver \<Rightarrow> string \<Rightarrow> resolver" where
  "message_data st data =
     (case foldl message_line (st, []) (split_lines data) of
        (st', lines) \<Rightarrow> st'\<lparr>message := message st' @ lines\<rparr>)"

text \<open>\<open>message.join('\n')\<close>\<close>

fun join_lines :: "string list \<Rightarrow> string" where
  "join_lines [] = []"
| "join_lines [x] = x"
| "join_lines (x # y # ys) = x @ LF # join_lines (y # ys)"

text \<open>The \<open>close\<close> handler: an error, or the message and \<open>isMergeRequest\<close>.\<close>

definition message_text :: "bool \<Rightarrow> resolver \<Rightarrow> string" where
  "message_text short st =
     (if short \<and> 0 < length (message st) then hd (message st) else join_lines (message st))"

definition message_close :: "bool \<Rightarrow> resolver \<Rightarrow> nat option \<Rightarrow> string + string \<times> bool" where
  "message_close short st code =
     (case code of
        None \<Rightarrow> Inr (message_text short st, isMergeRequest st)
      | Some n \<Rightarrow>
          if n \<noteq> 0
          then Inl (''Unable to get commit message. Git errored with code #'' @ show_nat n)
          else Inr (message_text short st, isMergeRequest st))"

text \<open>
  \<open>getMessageForCommit\<close>, given what \<open>git show\<close> delivers for the hash: its \<open>data\<close> events and
  the code of its \<open>close\<close> event.
\<close>

definition getMessageForCommit :: "bool \<Rightarrow> string list \<times> nat option \<Rightarrow> string + string \<times> bool" where
  "getMessageForCommit short out =
     (case out of
        (chunks, code) \<Rightarrow> message_close short (foldl message_data resolver_init chunks) code)"

text \<open>The effect of one line on the closure's variables, with \<open>message\<close> extended at once.\<close>

definition msg_step :: "resolver \<Rightarrow> string \<Rightarrow> resolver" where
  "msg_step st line =
     (case message_line (st, []) line of
        (st', lines) \<Rightarrow> st'\<lparr>message := message st' @ lines\<rparr>)"

subsection \<open>Messages of the versions\<close>

text \<open>
  \<open>async.parallelLimit(tasks, 4, callback)\<close>: the results in the order of the tasks, or an
  error. Which of several failing tasks reports first depends on timing; the model reports
  the first in the order of the tasks.
\<close>

fun parallelLimit :: "('a \<Rightarrow> string + 'b) \<Rightarrow> 'a list \<Rightarrow> string + 'b list" where
  "parallelLimit task [] = Inr []"
| "parallelLimit task (x # xs) =
     (case task x of
        Inl e \<Rightarrow> Inl e
      | Inr y \<Rightarrow>
          (case parallelLimit task xs of
             Inl e \<Rightarrow> Inl e
           | Inr ys \<Rightarrow> Inr (y # ys)))"

text \<open>
  The task of one hash in \<open>getMessagesForListOfCommits\<close>. \<open>removeMd\<close> is the package
  \<open>remove-markdown\<close>, a parameter; \<open>git_show\<close> is what \<open>git show\<close> delivers for a hash.
\<close>

definition commit_task ::
  "options \<Rightarrow> (string \<Rightarrow> string) \<Rightarrow> (string \<Rightarrow> string list \<times> nat option) \<Rightarrow> string
   \<Rightarrow> string + string" where
  "commit_task opts removeMd git_show hash =
     (case getMessageForCommit (shortCommitMessage opts) (git_show hash) of
        Inl e \<Rightarrow> Inl e
      | Inr (message', isMergeRequest') \<Rightarrow>
          Inr (if allCommits opts \<or> isMergeRequest' then removeMd message' else []))"

definition getMessagesForListOfCommits ::
  "options \<Rightarrow> (string \<Rightarrow> string) \<Rightarrow> (string \<Rightarrow> string list \<times> nat option) \<Rightarrow> string list
   \<Rightarrow> string + string list" where
  "getMessagesForListOfCommits opts removeMd git_show cs =
     parallelLimit (commit_task opts removeMd git_show) cs"

text \<open>\<open>_.filter(messages)\<close> keeps the truthy strings, the non-empty ones.\<close>

definition filterEmptyMessages :: "string list \<Rightarrow> string list" where
  "filterEmptyMessages ms = filter (\<lambda>m. m \<noteq> []) ms"

definition version_task ::
  "options \<Rightarrow> (string \<Rightarrow> string) \<Rightarrow> (string \<Rightarrow> string list \<times> nat option)
   \<Rightarrow> versionWithCommits \<Rightarrow> string + versionWithMessages" where
  "version_task opts removeMd git_show vc =
     (case getMessagesForListOfCommits opts removeMd git_show (commits vc) of
        Inl e \<Rightarrow> Inl e
      | Inr ms \<Rightarrow> Inr \<lparr>version = version vc, messages = filterEmptyMessages ms\<rparr>)"

definition getMessagesForVersions ::
  "options \<Rightarrow> (string \<Rightarrow> string) \<Rightarrow> (string \<Rightarrow> string list \<times> nat option)
   \<Rightarrow> versionWithCommits list \<Rightarrow> string + versionWithMessages list" where
  "getMessagesForVersions opts removeMd git_show vcs =
     parallelLimit (version_task opts removeMd git_show) vcs"

definition filterEmptyVersions :: "versionWithMessages list \<Rightarrow> versionWithMessages list" where
  "filterEmptyVersions vms = filter (\<lambda>vm. 0 < length (messages vm)) vms"

text \<open>The text a hash contributes when its message is fetched, and the messages of a bucket.\<close>

definition commit_text ::
  "options \<Rightarrow> (string \<Rightarrow> string) \<Rightarrow> (string \<Rightarrow> string list \<times> nat option) \<Rightarrow> string \<Rightarrow> string" where
  "commit_text opts removeMd git_show hash =
     (case commit_task opts removeMd git_show hash of Inl e \<Rightarrow> [] | Inr m \<Rightarrow> m)"

definition bucket_messages ::
  "options \<Rightarrow> (string \<Rightarrow> string) \<Rightarrow> (string \<Rightarrow> string list \<times> nat option)
   \<Rightarrow> versionWithCommits \<Rightarrow> string list" where
  "bucket_messages opts removeMd git_show vc =
     filter (\<lambda>m. m \<noteq> []) (map (commit_text opts removeMd git_show) (commits vc))"

subsection \<open>Rendering\<close>

definition generateVersionChangelog :: "string \<Rightarrow> string list \<Rightarrow> string" where
  "generateVersionChangelog version' messages' =
     foldl (\<lambda>result message'. result @ '' * '' @ message' @ [LF])
       (version' @ [LF] @ replicate (length version') (CHR ''='') @ [LF])
       messages'"

text \<open>The callback of \<open>_.forEach\<close> in \<open>generateChangelog\<close>.\<close>

definition changelog_block :: "string option \<Rightarrow> string \<Rightarrow> versionWithMessages \<Rightarrow> string \<times> bool" where
  "changelog_block until changelog vm =
     (if Some (version vm) = until then (changelog, False)
      else (changelog @ generateVersionChangelog (version vm) (messages vm) @ [LF], True))"

definition generateChangelog :: "string option \<Rightarrow> versionWithMessages list \<Rightarrow> string" where
  "generateChangelog until vms = forEach (changelog_block until) [] vms"

subsection \<open>The changelog file\<close>

text \<open>The changelog file as \<open>fs.stat\<close> and \<open>fs.readFile\<close> find it.\<close>

datatype store = Absent | Present string | Unreadable string

text \<open>Everything outside the program that a run depends on.\<close>

record world =
  changelog_file :: store
  git_log :: "string list \<times> nat option"
  git_show :: "string \<Rightarrow> string list \<times> nat option"
  write_error :: "string option"

definition readChangelogFile :: "world \<Rightarrow> string + string" where
  "readChangelogFile w =
     (case changelog_file w of
        Absent \<Rightarrow> Inr []
      | Present d \<Rightarrow> Inr d
      | Unreadable e \<Rightarrow> Inl e)"

text \<open>The global variables \<open>getLastVersionFromChangelog\<close> sets.\<close>

record changelog_vars =
  untilVersion :: "string option"
  oldChangelogHeader :: string
  oldChangelog :: string

definition changelog_vars_init :: changelog_vars where
  "changelog_vars_init = \<lparr>untilVersion = None, oldChangelogHeader = [], oldChangelog = []\<rparr>"

definition changelog_line :: "changelog_vars \<Rightarrow> string \<Rightarrow> changelog_vars" where
  "changelog_line g line =
     (let g1 = (if \<not> truthy (untilVersion g) \<and> versionRegExp line
                then g\<lparr>untilVersion := Some line\<rparr> else g)
      in if truthy (untilVersion g1)
         then g1\<lparr>oldChangelog := oldChangelog g1 @ line @ [LF]\<rparr>
         else g1\<lparr>oldChangelogHeader := oldChangelogHeader g1 @ line @ [LF]\<rparr>)"

definition getLastVersionFromChangelog :: "options \<Rightarrow> string \<Rightarrow> changelog_vars" where
  "getLastVersionFromChangelog opts changelog =
     (if overwriteChangelog opts \<or> changelog = [] then changelog_vars_init
      else
        (let g = foldl changelog_line changelog_vars_init (split_lines changelog)
         in g\<lparr>oldChangelog := take (length (oldChangelog g) - 1) (oldChangelog g)\<rparr>))"

text \<open>
  \<open>writeChangelogFile\<close>: the text handed to \<open>fs.writeFile\<close>, if any, and the error of the
  callback.
\<close>

definition writeChangelogFile ::
  "changelog_vars \<Rightarrow> world \<Rightarrow> string \<Rightarrow> string option \<times> string option" where
  "writeChangelogFile g w changelog =
     (if changelog \<noteq> []
      then (Some (oldChangelogHeader g @ changelog @ oldChangelog g), write_error w)
      else (None, None))"

subsection \<open>The run\<close>

text \<open>
  What a run leaves: the text handed to \<open>fs.writeFile\<close> (\<open>None\<close> when the file is not
  written), the lines of \<open>console.error\<close> and the exit status.
\<close>

record outcome =
  written :: "string option"
  err_stream :: "string list"
  exit_status :: nat

definition handleFinish :: "string option \<Rightarrow> string option \<Rightarrow> outcome" where
  "handleFinish error wr =
     (case error of
        Some e \<Rightarrow> \<lparr>written = wr, err_stream = [''ERROR: '' @ e], exit_status = 1\<rparr>
      | None \<Rightarrow> \<lparr>written = wr, err_stream = [], exit_status = 0\<rparr>)"

text \<open>
  The tasks of \<open>async.waterfall\<close> from \<open>getVersionsWithCommits\<close> to \<open>generateChangelog\<close>: an
  error, or the rendered changelog.
\<close>

definition new_changelog ::
  "options \<Rightarrow> (string \<Rightarrow> string) \<Rightarrow> world \<Rightarrow> string option \<Rightarrow> string + string" where
  "new_changelog opts removeMd w until =
     (case getVersionsWithCommits (allCommits opts) until (startVersion opts)
             (fst (git_log w)) (snd (git_log w)) of
        Inl e \<Rightarrow> Inl e
      | Inr vcs \<Rightarrow>
          (case getMessagesForVersions opts removeMd (git_show w) vcs of
             Inl e \<Rightarrow> Inl e
           | Inr vms \<Rightarrow> Inr (generateChangelog until (filterEmptyVersions vms))))"

text \<open>The whole \<open>async.waterfall\<close> with \<open>handleFinish\<close>.\<close>

definition mergelogga :: "options \<Rightarrow> (string \<Rightarrow> string) \<Rightarrow> world \<Rightarrow> outcome" where
  "mergelogga opts removeMd w =
     (case readChangelogFile w of
        Inl e \<Rightarrow> handleFinish (Some e) None
      | Inr changelog \<Rightarrow>
          (let g = getLastVersionFromChangelog opts changelog
           in case new_changelog opts removeMd w (untilVersion g) of
                Inl e \<Rightarrow> handleFinish (Some e) None
              | Inr changelog' \<Rightarrow>
                  (case writeChangelogFile g w changelog' of
                     (wr, error) \<Rightarrow> handleFinish error wr)))"

text \<open>A text with a carriage return directly before a line feed.\<close>

fun has_crlf :: "string \<Rightarrow> bool" where
  "has_crlf [] = False"
| "has_crlf (c # cs) = ((c = CR \<and> take 1 cs = [LF]) \<or> has_crlf cs)"

section \<open>Theorems\<close>

subsection \<open>Tag detection\<close>

lemma digits1_nonempty: "digits1 s = Some r \<Longrightarrow> s \<noteq> []"
  by (auto simp: digits1_def split: if_splits)

lemma versionRegExp_nonempty: "versionRegExp s \<Longrightarrow> s \<noteq> []"
  by (auto simp: versionRegExp_def dest: digits1_nonempty split: option.splits)

lemma decoration_tag_truthy: "decoration_tag d = Some m \<Longrightarrow> truthy (Some m)"
  by (auto simp: decoration_tag_def truthy_def dest: versionRegExp_nonempty
      split: option.splits if_splits)

lemma tag_step_cases:
  "tag_step tag d =
     (if truthy tag then tag
      else (case decoration_tag d of None \<Rightarrow> tag | Some m \<Rightarrow> Some m))"
  by (auto simp: tag_step_def decoration_tag_def split: option.splits)

lemma foldl_tag_step_truthy: "truthy tag \<Longrightarrow> foldl tag_step tag ds = tag"
  by (induction ds) (simp_all add: tag_step_cases)

lemma foldl_tag_step_None: "foldl tag_step None ds = first_tag ds"
proof (induction ds)
  case Nil
  show ?case by simp
next
  case (Cons d ds)
  show ?case
  proof (cases "decoration_tag d")
    case None
    then have "tag_step None d = None" by (simp add: tag_step_cases truthy_def)
    with None Cons show ?thesis by simp
  next
    case (Some m)
    then have "tag_step None d = Some m" by (simp add: tag_step_cases truthy_def)
    with Some show ?thesis
      by (simp add: foldl_tag_step_truthy decoration_tag_truthy)
  qed
qed

lemma getTagVersion_version: "getTagVersion r = Some v \<Longrightarrow> versionRegExp v"
proof -
  have "first_tag ds = Some v \<Longrightarrow> versionRegExp v" for ds
    by (induction ds) (auto simp: decoration_tag_def split: option.splits if_splits)
  then show "getTagVersion r = Some v \<Longrightarrow> versionRegExp v"
    by (simp add: getTagVersion_def foldl_tag_step_None)
qed

lemma getTagVersion_truthy: "getTagVersion r = Some v \<Longrightarrow> v \<noteq> []"
  by (auto dest: getTagVersion_version versionRegExp_nonempty)

lemma getTagVersion_first_tag: "getTagVersion refNames = first_tag (decorations refNames)"
  by (simp add: getTagVersion_def foldl_tag_step_None)

lemma tag_here_spaced:
  "(case ci_prefix ''tag:'' s of None \<Rightarrow> True | Some r \<Rightarrow> takeWhile isSpace r \<noteq> []) \<Longrightarrow>
   spec_tag_here s = tag_here s"
  by (simp add: spec_tag_here_def tag_here_def split: option.splits)

lemma tag_match_spaced: "tag_spaced d \<Longrightarrow> spec_tag_match d = tag_match d"
proof (induction d)
  case Nil
  show ?case by (simp add: spec_tag_here_def tag_here_def)
next
  case (Cons c cs)
  then have h: "spec_tag_here (c # cs) = tag_here (c # cs)"
    and t: "spec_tag_match cs = tag_match cs"
    by (simp_all add: tag_here_spaced)
  show ?case by (simp add: h t cong: option.case_cong)
qed

lemma first_tag_spaced:
  "\<forall>d\<in>set ds. tag_spaced d \<Longrightarrow> spec_first_tag ds = first_tag ds"
  by (induction ds)
    (simp_all add: spec_decoration_tag_def decoration_tag_def tag_match_spaced
      cong: option.case_cong)

text \<open>
  C5: for every sequence of ref decorations as the history provider writes them (white space
  after every \<open>tag:\<close>), \<open>getTagVersion\<close> returns the version captured by the first
  decoration, in the order supplied, that matches \<open>tag:\s*v?(<version>)\<close> (case-insensitive)
  with a captured text that matches the version pattern; later decorations are ignored, and
  when no decoration qualifies the result is \<open>undefined\<close>.
\<close>

theorem C5_first_qualifying_decoration:
  assumes "\<forall>d\<in>set (decorations refNames). tag_spaced d"
  shows "getTagVersion refNames = spec_first_tag (decorations refNames)"
  using assms by (simp add: getTagVersion_first_tag first_tag_spaced)

text \<open>
  The theorem of C5 at a commit with a branch, a tag that is no version and two version tags.
\<close>

theorem C5_first_qualifying_decoration_witness:
  "getTagVersion (Some ''HEAD -> master, tag: beta, TAG: V1.2, tag: v3.4.5'') = Some ''1.2''"
proof -
  have h: "\<forall>d\<in>set (decorations (Some ''HEAD -> master, tag: beta, TAG: V1.2, tag: v3.4.5'')).
             tag_spaced d"
    by code_simp
  have "spec_first_tag (decorations (Some ''HEAD -> master, tag: beta, TAG: V1.2, tag: v3.4.5''))
          = Some ''1.2''"
    by code_simp
  with C5_first_qualifying_decoration [OF h] show ?thesis by simp
qed

subsection \<open>The segmenter\<close>

lemma line_version_truthy: "truthy (line_version l) \<longleftrightarrow> line_version l \<noteq> None"
  by (auto simp: truthy_def line_version_def dest: getTagVersion_truthy split: option.splits)

lemma on_line_resume:
  "resume_line until l \<Longrightarrow> on_line all until s l = (s\<lparr>processKilled := True\<rparr>, False)"
  using line_version_truthy [of l]
  by (auto simp: on_line_def resume_line_def Let_def)

lemma on_line_tagged:
  "line_version l = Some v \<Longrightarrow> until \<noteq> Some v \<Longrightarrow>
   on_line all until s l =
     (s\<lparr>versionsWithCommits := push_current s,
        currentCommits := retained_hashes all [l],
        currentVersion := Some v\<rparr>, True)"
  using line_version_truthy [of l]
  by (auto simp: on_line_def retained_hashes_def retained_def line_hash_def Let_def)

lemma on_line_untagged:
  "line_version l = None \<Longrightarrow>
   on_line all until s l = (s\<lparr>currentCommits := currentCommits s @ retained_hashes all [l]\<rparr>, True)"
  by (auto simp: on_line_def retained_hashes_def retained_def line_hash_def Let_def truthy_def)

lemma on_line_continue:
  "snd (on_line all until s l) \<longleftrightarrow> \<not> resume_line until l"
  using line_version_truthy [of l]
  by (auto simp: on_line_def resume_line_def Let_def)

lemma on_line_killed:
  "processKilled (fst (on_line all until s l)) \<longleftrightarrow> processKilled s \<or> resume_line until l"
  using line_version_truthy [of l]
  by (auto simp: on_line_def resume_line_def Let_def)

lemma seg_step_killed [simp]: "processKilled s \<Longrightarrow> foldl (seg_step all until) s ls = s"
  by (induction ls) (simp_all add: seg_step_def)

lemma forEach_on_line:
  "\<not> processKilled s \<Longrightarrow>
   forEach (on_line all until) s ls = foldl (seg_step all until) s ls"
proof (induction ls arbitrary: s)
  case Nil
  show ?case by simp
next
  case (Cons l ls)
  obtain s' c where sc: "on_line all until s l = (s', c)" by (cases "on_line all until s l")
  have c: "c \<longleftrightarrow> \<not> resume_line until l" using on_line_continue [of all until s l] sc by simp
  have k: "processKilled s' \<longleftrightarrow> resume_line until l"
    using on_line_killed [of all until s l] sc Cons.prems by simp
  have st: "seg_step all until s l = s'" using Cons.prems sc by (simp add: seg_step_def)
  show ?case
  proof (cases c)
    case True
    with c k have "\<not> processKilled s'" by simp
    with Cons.IH [of s'] sc True st show ?thesis by simp
  next
    case False
    with c k have "processKilled s'" by simp
    with sc False st show ?thesis by (simp add: seg_step_killed)
  qed
qed

lemma on_data_foldl: "on_data all until s d = foldl (seg_step all until) s (split_lines d)"
  by (simp add: on_data_def forEach_on_line seg_step_killed)

lemma foldl_on_data:
  "foldl (on_data all until) s chunks = foldl (seg_step all until) s (all_lines chunks)"
  by (induction chunks arbitrary: s) (simp_all add: all_lines_def on_data_foldl)

lemma getVersionsWithCommits_lines:
  "getVersionsWithCommits all until start chunks code =
   on_close (foldl (seg_step all until) (segmenter_init start) (all_lines chunks)) code"
  by (simp add: getVersionsWithCommits_def foldl_on_data)

lemma seg_step_resume:
  "\<not> processKilled s \<Longrightarrow> resume_line until l \<Longrightarrow>
   seg_step all until s l = s\<lparr>processKilled := True\<rparr>"
  by (simp add: seg_step_def on_line_resume)

lemma seg_step_tagged:
  "\<not> processKilled s \<Longrightarrow> line_version l = Some v \<Longrightarrow> until \<noteq> Some v \<Longrightarrow>
   seg_step all until s l =
     s\<lparr>versionsWithCommits := push_current s,
       currentCommits := retained_hashes all [l],
       currentVersion := Some v\<rparr>"
  by (simp add: seg_step_def on_line_tagged)

lemma seg_step_untagged:
  "\<not> processKilled s \<Longrightarrow> line_version l = None \<Longrightarrow>
   seg_step all until s l = s\<lparr>currentCommits := currentCommits s @ retained_hashes all [l]\<rparr>"
  by (simp add: seg_step_def on_line_untagged)

lemma line_cases:
  obtains (resume) "resume_line until l"
  | (tagged) v where "line_version l = Some v" "until \<noteq> Some v"
  | (untagged) "line_version l = None"
  by (cases "line_version l") (auto simp: resume_line_def)

lemma push_current_killed [simp]: "push_current (s\<lparr>processKilled := k\<rparr>) = push_current s"
  by (simp add: push_current_def split: option.splits)

lemma on_close_cong: "push_current s = push_current s' \<Longrightarrow> on_close s code = on_close s' code"
  by (simp add: on_close_def split: option.splits)

lemma on_close_falsy: "\<not> truthy_code code \<Longrightarrow> on_close s code = Inr (push_current s)"
  by (simp add: on_close_def truthy_code_def split: option.splits)

lemma on_close_killed [simp]: "on_close (s\<lparr>processKilled := k\<rparr>) code = on_close s code"
  by (simp add: on_close_def split: option.splits)

lemma killed_foldl:
  "processKilled (foldl (seg_step all until) s ls) \<longleftrightarrow>
   processKilled s \<or> (\<exists>l\<in>set ls. resume_line until l)"
proof (induction ls arbitrary: s)
  case Nil
  show ?case by simp
next
  case (Cons l ls)
  have "processKilled (seg_step all until s l) \<longleftrightarrow> processKilled s \<or> resume_line until l"
    by (simp add: seg_step_def on_line_killed)
  with Cons.IH [of "seg_step all until s l"] show ?case by auto
qed

lemma seg_step_id [simp]: "processKilled s \<Longrightarrow> seg_step all until s l = s"
  by (simp add: seg_step_def)

lemma foldl_cut:
  assumes "resume_line until l"
  shows "on_close (foldl (seg_step all until) s (pre @ l # post)) code =
         on_close (foldl (seg_step all until) s pre) code"
proof -
  let ?s = "foldl (seg_step all until) s pre"
  show ?thesis
  proof (cases "processKilled ?s")
    case True
    then show ?thesis by (simp add: seg_step_killed seg_step_id)
  next
    case False
    then have "seg_step all until ?s l = ?s\<lparr>processKilled := True\<rparr>"
      using assms by (simp add: seg_step_resume)
    then show ?thesis by (simp add: seg_step_killed)
  qed
qed

lemma foldl_untagged:
  "\<not> processKilled s \<Longrightarrow> \<forall>l\<in>set ls. line_version l = None \<Longrightarrow>
   foldl (seg_step all until) s ls =
     s\<lparr>currentCommits := currentCommits s @ retained_hashes all ls\<rparr>"
proof (induction ls arbitrary: s)
  case Nil
  show ?case by (simp add: retained_hashes_def)
next
  case (Cons l ls)
  have st: "seg_step all until s l = s\<lparr>currentCommits := currentCommits s @ retained_hashes all [l]\<rparr>"
    using Cons.prems by (simp add: seg_step_untagged)
  have "foldl (seg_step all until) (seg_step all until s l) ls =
        (seg_step all until s l)\<lparr>currentCommits :=
           currentCommits (seg_step all until s l) @ retained_hashes all ls\<rparr>"
    using Cons.prems st by (intro Cons.IH) simp_all
  then show ?case by (simp add: st retained_hashes_def)
qed

lemma push_current_falsy:
  "\<not> truthy (currentVersion s) \<Longrightarrow> push_current (s\<lparr>currentCommits := c\<rparr>) = push_current s"
  by (auto simp: push_current_def truthy_def split: option.splits)

lemma pre_tag_commits_dropped:
  "\<not> truthy (currentVersion s) \<Longrightarrow>
   on_close (foldl (seg_step all until) (s\<lparr>currentCommits := c\<rparr>) ls) code =
   on_close (foldl (seg_step all until) s ls) code"
proof (induction ls arbitrary: s c)
  case Nil
  then show ?case by (intro on_close_cong) (simp add: push_current_falsy)
next
  case (Cons l ls)
  show ?case
  proof (cases "processKilled s")
    case True
    then have "foldl (seg_step all until) (s\<lparr>currentCommits := c\<rparr>) (l # ls) = s\<lparr>currentCommits := c\<rparr>"
      and "foldl (seg_step all until) s (l # ls) = s"
      by (simp_all add: seg_step_killed)
    then show ?thesis using Cons.prems by (simp, intro on_close_cong) (simp add: push_current_falsy)
  next
    case False
    show ?thesis
    proof (cases l rule: line_cases [of until])
      case resume
      with False have "seg_step all until (s\<lparr>currentCommits := c\<rparr>) l = s\<lparr>currentCommits := c, processKilled := True\<rparr>"
        and "seg_step all until s l = s\<lparr>processKilled := True\<rparr>"
        by (simp_all add: seg_step_resume)
      then show ?thesis using Cons.prems
        by (simp add: seg_step_killed, intro on_close_cong) (simp add: push_current_falsy)
    next
      case (tagged v)
      with False have "seg_step all until (s\<lparr>currentCommits := c\<rparr>) l = seg_step all until s l"
        using push_current_falsy [OF Cons.prems, of c]
        by (simp add: seg_step_tagged)
      then show ?thesis by simp
    next
      case untagged
      let ?s' = "seg_step all until s l"
      have s': "?s' = s\<lparr>currentCommits := currentCommits s @ retained_hashes all [l]\<rparr>"
        using False untagged by (simp add: seg_step_untagged)
      have "seg_step all until (s\<lparr>currentCommits := c\<rparr>) l =
            ?s'\<lparr>currentCommits := c @ retained_hashes all [l]\<rparr>"
        using False untagged by (simp add: seg_step_untagged)
      moreover have "\<not> truthy (currentVersion ?s')" using Cons.prems s' by simp
      ultimately show ?thesis using Cons.IH [of ?s'] by simp
    qed
  qed
qed

lemma set_push_current:
  "b \<in> set (push_current s) \<Longrightarrow>
   b \<in> set (versionsWithCommits s) \<or> currentVersion s = Some (version b)"
  by (auto simp: push_current_def split: option.splits if_splits)

lemma seg_step_versions:
  assumes "currentVersion s \<noteq> Some u"
      and "\<forall>b\<in>set (versionsWithCommits s). version b \<noteq> u"
  shows "currentVersion (seg_step all (Some u) s l) \<noteq> Some u \<and>
         (\<forall>b\<in>set (versionsWithCommits (seg_step all (Some u) s l)). version b \<noteq> u)"
proof (cases "processKilled s")
  case True
  with assms show ?thesis by simp
next
  case False
  show ?thesis
  proof (cases l rule: line_cases [of "Some u"])
    case resume
    with False assms show ?thesis by (simp add: seg_step_resume)
  next
    case (tagged v)
    with False assms show ?thesis
      by (auto simp: seg_step_tagged dest: set_push_current)
  next
    case untagged
    with False assms show ?thesis by (simp add: seg_step_untagged)
  qed
qed

lemma foldl_versions:
  "currentVersion s \<noteq> Some u \<Longrightarrow> \<forall>b\<in>set (versionsWithCommits s). version b \<noteq> u \<Longrightarrow>
   currentVersion (foldl (seg_step all (Some u)) s ls) \<noteq> Some u \<and>
   (\<forall>b\<in>set (versionsWithCommits (foldl (seg_step all (Some u)) s ls)). version b \<noteq> u)"
proof (induction ls arbitrary: s)
  case Nil
  then show ?case by simp
next
  case (Cons l ls)
  from seg_step_versions [OF Cons.prems, of all l]
  show ?case using Cons.IH [of "seg_step all (Some u) s l"] by simp
qed

lemma push_current_prefix:
  "push_current (s\<lparr>versionsWithCommits := p @ versionsWithCommits s\<rparr>) = p @ push_current s"
  by (simp add: push_current_def split: option.splits)

lemma seg_step_prefix:
  "seg_step all until (s\<lparr>versionsWithCommits := p @ versionsWithCommits s\<rparr>) l =
   (seg_step all until s l)\<lparr>versionsWithCommits := p @ versionsWithCommits (seg_step all until s l)\<rparr>"
proof (cases "processKilled s")
  case True
  then show ?thesis by simp
next
  case False
  show ?thesis
    by (cases l rule: line_cases [of until])
      (simp_all add: False seg_step_resume seg_step_tagged seg_step_untagged push_current_prefix)
qed

lemma foldl_prefix:
  "foldl (seg_step all until) (s\<lparr>versionsWithCommits := p @ versionsWithCommits s\<rparr>) ls =
   (foldl (seg_step all until) s ls)
     \<lparr>versionsWithCommits := p @ versionsWithCommits (foldl (seg_step all until) s ls)\<rparr>"
proof (induction ls arbitrary: s)
  case Nil
  show ?case by simp
next
  case (Cons l ls)
  show ?case by (simp add: seg_step_prefix Cons.IH)
qed

lemma push_after_open_bucket:
  assumes k: "\<not> processKilled s"
      and v: "currentVersion s = Some v" "v \<noteq> []"
      and r: "rest = [] \<or> line_version (hd rest) \<noteq> None"
  shows "push_current (foldl (seg_step all until) s rest) =
         push_current s @ push_current (foldl (seg_step all until) (segmenter_init None) rest)"
proof (cases rest)
  case Nil
  then show ?thesis by (simp add: push_current_def segmenter_init_def)
next
  case (Cons x xs)
  with r obtain w where w: "line_version x = Some w" by auto
  let ?i = "segmenter_init None"
  have ik: "\<not> processKilled ?i" by (simp add: segmenter_init_def)
  show ?thesis
  proof (cases "until = Some w")
    case True
    then have "resume_line until x" using w by (simp add: resume_line_def)
    then show ?thesis using k ik Cons
      by (simp add: seg_step_resume) (simp add: push_current_def segmenter_init_def)
  next
    case False
    have a: "seg_step all until s x =
             (seg_step all until ?i x)\<lparr>versionsWithCommits :=
                push_current s @ versionsWithCommits (seg_step all until ?i x)\<rparr>"
      using k ik w False
      by (simp add: seg_step_tagged) (simp add: push_current_def segmenter_init_def)
    show ?thesis
      using Cons by (simp add: a foldl_prefix push_current_prefix)
  qed
qed

lemma versions_in_order:
  "\<not> processKilled s \<Longrightarrow>
   map version (push_current (foldl (seg_step all until) s ls)) =
   map version (push_current s) @ takeWhile (\<lambda>v. until \<noteq> Some v) (detected_tags ls)"
proof (induction ls arbitrary: s)
  case Nil
  show ?case by (simp add: detected_tags_def)
next
  case (Cons l ls)
  show ?case
  proof (cases l rule: line_cases [of until])
    case resume
    then obtain u where "line_version l = Some u" "until = Some u"
      by (auto simp: resume_line_def)
    with resume Cons.prems show ?thesis
      by (simp add: seg_step_resume detected_tags_def)
  next
    case (tagged v)
    let ?s' = "seg_step all until s l"
    have s': "?s' = s\<lparr>versionsWithCommits := push_current s,
                      currentCommits := retained_hashes all [l],
                      currentVersion := Some v\<rparr>"
      using tagged Cons.prems by (simp add: seg_step_tagged)
    have "v \<noteq> []" using tagged(1) by (auto simp: line_version_def dest: getTagVersion_truthy)
    then have p: "map version (push_current ?s') = map version (push_current s) @ [v]"
      by (simp add: s') (simp add: push_current_def)
    have "\<not> processKilled ?s'" using s' Cons.prems by simp
    from Cons.IH [OF this] p tagged show ?thesis by (simp add: detected_tags_def)
  next
    case untagged
    let ?s' = "seg_step all until s l"
    have s': "?s' = s\<lparr>currentCommits := currentCommits s @ retained_hashes all [l]\<rparr>"
      using untagged Cons.prems by (simp add: seg_step_untagged)
    have p: "map version (push_current ?s') = map version (push_current s)"
      by (simp add: s') (simp add: push_current_def split: option.splits)
    have "\<not> processKilled ?s'" using s' Cons.prems by simp
    from Cons.IH [OF this] p untagged show ?thesis by (simp add: detected_tags_def)
  qed
qed

text \<open>
  C1, as the specification states it: when the tag of the resume version is detected, the open
  bucket is discarded, neither sealed nor pushed. In the run below the resume version is
  \<open>1.0.0\<close>; the bucket of \<open>2.0.0\<close> is open when the tag is detected, \<open>git log\<close> is killed and
  closes with the code \<open>null\<close>, and the \<open>close\<close> handler pushes the open bucket: it is the
  output.
\<close>

theorem C1_counterexample:
  "getVersionsWithCommits False (Some ''1.0.0'') None
     [''aaa p1 p2#HEAD -> master, tag: v2.0.0\<newline>bbb p3 p4#\<newline>ccc p5#tag: v1.0.0\<newline>ddd p6 p7#'']
     None
   = Inr [\<lparr>version = ''2.0.0'', commits = [''aaa'', ''bbb'']\<rparr>]"
  by code_simp

text \<open>
  C1, amended: when a line bears the tag of the resume version, the segmenter's result is the
  result for the stream that ends just before that line: the line itself and every commit
  and decoration after it contribute to no bucket. The open bucket is not discarded: when
  the stream closes with no error code, the result is the list of sealed buckets followed by
  the open bucket as it stood before that line, if a version is current. Unless the
  start-version override equals the resume version, no bucket of the result has the resume
  version.
\<close>

theorem C1_stream_cut_at_resume_tag:
  assumes "all_lines chunks = pre @ l # post"
      and "line_version l = Some u"
      and "all_lines chunks' = pre"
  shows "getVersionsWithCommits all (Some u) start chunks code =
           getVersionsWithCommits all (Some u) start chunks' code \<and>
         (\<not> truthy_code code \<longrightarrow>
            getVersionsWithCommits all (Some u) start chunks code =
              Inr (push_current (foldl (on_data all (Some u)) (segmenter_init start) chunks'))) \<and>
         (start \<noteq> Some u \<longrightarrow>
            (\<forall>bs. getVersionsWithCommits all (Some u) start chunks code = Inr bs \<longrightarrow>
                  (\<forall>b\<in>set bs. version b \<noteq> u)))"
proof -
  have r: "resume_line (Some u) l" using assms(2) by (simp add: resume_line_def)
  have eq: "getVersionsWithCommits all (Some u) start chunks code =
            getVersionsWithCommits all (Some u) start chunks' code"
    using foldl_cut [OF r, of all "segmenter_init start" pre post code]
    by (simp only: getVersionsWithCommits_lines assms(1) assms(3))
  have op: "getVersionsWithCommits all (Some u) start chunks code =
              Inr (push_current (foldl (on_data all (Some u)) (segmenter_init start) chunks'))"
    if "\<not> truthy_code code"
  proof -
    have "getVersionsWithCommits all (Some u) start chunks' code =
          Inr (push_current (foldl (on_data all (Some u)) (segmenter_init start) chunks'))"
      using that by (simp add: getVersionsWithCommits_def on_close_falsy)
    with eq show ?thesis by simp
  qed
  have vs: "\<forall>b\<in>set bs. version b \<noteq> u"
    if s: "start \<noteq> Some u" and bs: "getVersionsWithCommits all (Some u) start chunks code = Inr bs"
    for bs
  proof -
    let ?s = "foldl (seg_step all (Some u)) (segmenter_init start) (all_lines chunks)"
    have inv: "currentVersion ?s \<noteq> Some u \<and> (\<forall>b\<in>set (versionsWithCommits ?s). version b \<noteq> u)"
      using s by (intro foldl_versions) (simp_all add: segmenter_init_def)
    have "bs = push_current ?s"
      using bs by (auto simp: getVersionsWithCommits_lines on_close_def split: option.splits if_splits)
    with inv show ?thesis by (auto dest: set_push_current)
  qed
  from eq op vs show ?thesis by blast
qed

text \<open>The theorem of C1 at a stream of four lines whose third bears the resume tag.\<close>

theorem C1_stream_cut_at_resume_tag_witness:
  "getVersionsWithCommits False (Some ''1.0.0'') None
     [''aaa p1 p2#HEAD -> master, tag: v2.0.0\<newline>bbb p3 p4#\<newline>ccc p5#tag: v1.0.0\<newline>ddd p6 p7#'']
     None
   = getVersionsWithCommits False (Some ''1.0.0'') None
     [''aaa p1 p2#HEAD -> master, tag: v2.0.0\<newline>bbb p3 p4#''] None"
proof -
  have h1: "all_lines [''aaa p1 p2#HEAD -> master, tag: v2.0.0\<newline>bbb p3 p4#\<newline>ccc p5#tag: v1.0.0\<newline>ddd p6 p7#'']
      = [''aaa p1 p2#HEAD -> master, tag: v2.0.0'', ''bbb p3 p4#''] @ ''ccc p5#tag: v1.0.0'' # [''ddd p6 p7#'']"
    by code_simp
  have h2: "line_version ''ccc p5#tag: v1.0.0'' = Some ''1.0.0''"
    by code_simp
  have h3: "all_lines [''aaa p1 p2#HEAD -> master, tag: v2.0.0\<newline>bbb p3 p4#'']
      = [''aaa p1 p2#HEAD -> master, tag: v2.0.0'', ''bbb p3 p4#'']"
    by code_simp
  from C1_stream_cut_at_resume_tag [OF h1 h2 h3, of False None None]
  show ?thesis by blast
qed

text \<open>
  C2: in a stream (newest first) read up to a line \<open>t\<close> that bears a new tag \<open>v\<close>, the open
  bucket is sealed and pushed before the bucket of \<open>v\<close> is opened: the buckets before that
  of \<open>v\<close> are the result for the lines before \<open>t\<close>. The bucket of \<open>v\<close> holds the retained
  hashes of \<open>t\<close> itself and of the untagged lines between \<open>t\<close> and the next tagged line, and
  the buckets after it are the result for the lines from the next tagged line on. The
  versions of the result are the start version, if any, followed by the tags in the order of
  their detection, up to the resume tag.
\<close>

theorem C2_buckets_follow_tags:
  assumes lines: "all_lines chunks = pre @ t # mid @ rest"
      and pre: "\<forall>x\<in>set pre. \<not> resume_line until x"
      and t: "line_version t = Some v" "until \<noteq> Some v"
      and mid: "\<forall>x\<in>set mid. line_version x = None"
      and rest: "rest = [] \<or> line_version (hd rest) \<noteq> None"
      and cpre: "all_lines chunks_pre = pre"
      and crest: "all_lines chunks_rest = rest"
      and code: "\<not> truthy_code code"
  shows "\<exists>bs1 bs2.
           getVersionsWithCommits all until start chunks_pre code = Inr bs1 \<and>
           getVersionsWithCommits all until None chunks_rest code = Inr bs2 \<and>
           getVersionsWithCommits all until start chunks code =
             Inr (bs1 @ \<lparr>version = v, commits = retained_hashes all (t # mid)\<rparr> # bs2) \<and>
           map version (bs1 @ \<lparr>version = v, commits = retained_hashes all (t # mid)\<rparr> # bs2) =
             (if truthy start then [the start] else []) @
             takeWhile (\<lambda>w. until \<noteq> Some w) (detected_tags (all_lines chunks))"
proof -
  let ?f = "foldl (seg_step all until)"
  let ?i = "segmenter_init start"
  let ?sp = "?f ?i pre"
  let ?st = "seg_step all until ?sp t"
  let ?sm = "?f ?st mid"
  have ik: "\<not> processKilled ?i" by (simp add: segmenter_init_def)
  have kp: "\<not> processKilled ?sp" using pre ik by (simp add: killed_foldl)
  have st: "?st = ?sp\<lparr>versionsWithCommits := push_current ?sp,
                      currentCommits := retained_hashes all [t],
                      currentVersion := Some v\<rparr>"
    using kp t by (simp add: seg_step_tagged)
  have kt: "\<not> processKilled ?st" using kp st by simp
  have sm: "?sm = ?st\<lparr>currentCommits := currentCommits ?st @ retained_hashes all mid\<rparr>"
    using kt mid by (rule foldl_untagged)
  have ne: "v \<noteq> []" using t(1) by (auto simp: line_version_def dest: getTagVersion_truthy)
  have pm: "push_current ?sm =
            push_current ?sp @ [\<lparr>version = v, commits = retained_hashes all (t # mid)\<rparr>]"
    unfolding sm unfolding st
    using ne by (simp add: push_current_def retained_hashes_def)
  have km: "\<not> processKilled ?sm" and cm: "currentVersion ?sm = Some v"
    unfolding sm unfolding st using kp by simp_all
  have whole: "push_current (?f ?i (all_lines chunks)) =
        push_current ?sp @ \<lparr>version = v, commits = retained_hashes all (t # mid)\<rparr> #
        push_current (?f (segmenter_init None) rest)"
    using push_after_open_bucket [OF km cm ne rest, of all until]
    by (simp add: lines pm)
  have ord: "map version (push_current (?f ?i (all_lines chunks))) =
        (if truthy start then [the start] else []) @
        takeWhile (\<lambda>w. until \<noteq> Some w) (detected_tags (all_lines chunks))"
    using versions_in_order [OF ik, of all until "all_lines chunks"]
    by (auto simp: push_current_def segmenter_init_def truthy_def split: option.splits)
  show ?thesis
    using whole ord code
    by (simp add: getVersionsWithCommits_lines on_close_falsy cpre crest)
qed

text \<open>
  The theorem of C2 at a stream with a start version, an untagged line, two tagged lines and a
  merge commit between them.
\<close>

theorem C2_buckets_follow_tags_witness:
  "getVersionsWithCommits False None (Some ''2.0.0'')
     [''z9 p8 p9#HEAD -> master\<newline>a1 p0#tag: v1.0.0\<newline>b2 p1 p2#\<newline>c3 p3#tag: v0.9.0\<newline>''] None
   = Inr [\<lparr>version = ''2.0.0'', commits = [''z9'']\<rparr>,
          \<lparr>version = ''1.0.0'', commits = [''b2'']\<rparr>,
          \<lparr>version = ''0.9.0'', commits = []\<rparr>]"
proof -
  have lines: "all_lines [''z9 p8 p9#HEAD -> master\<newline>a1 p0#tag: v1.0.0\<newline>b2 p1 p2#\<newline>c3 p3#tag: v0.9.0\<newline>'']
      = [''z9 p8 p9#HEAD -> master''] @ ''a1 p0#tag: v1.0.0'' # [''b2 p1 p2#''] @ [''c3 p3#tag: v0.9.0'', '''']"
    by code_simp
  have pre: "\<forall>x\<in>set [''z9 p8 p9#HEAD -> master'']. \<not> resume_line None x" by code_simp
  have t: "line_version ''a1 p0#tag: v1.0.0'' = Some ''1.0.0''" by code_simp
  have u: "None \<noteq> Some ''1.0.0''" by simp
  have mid: "\<forall>x\<in>set [''b2 p1 p2#'']. line_version x = None" by code_simp
  have rest: "[''c3 p3#tag: v0.9.0'', ''''] = [] \<or> line_version (hd [''c3 p3#tag: v0.9.0'', '''']) \<noteq> None"
    by code_simp
  have cpre: "all_lines [''z9 p8 p9#HEAD -> master''] = [''z9 p8 p9#HEAD -> master'']" by code_simp
  have crest: "all_lines [''c3 p3#tag: v0.9.0\<newline>''] = [''c3 p3#tag: v0.9.0'', '''']" by code_simp
  have code: "\<not> truthy_code None" by code_simp
  have b1: "getVersionsWithCommits False None (Some ''2.0.0'') [''z9 p8 p9#HEAD -> master''] None
      = Inr [\<lparr>version = ''2.0.0'', commits = [''z9'']\<rparr>]" by code_simp
  have b2: "getVersionsWithCommits False None None [''c3 p3#tag: v0.9.0\<newline>''] None
      = Inr [\<lparr>version = ''0.9.0'', commits = []\<rparr>]" by code_simp
  have r: "retained_hashes False [''a1 p0#tag: v1.0.0'', ''b2 p1 p2#''] = [''b2'']" by code_simp
  from C2_buckets_follow_tags [OF lines pre t u mid rest cpre crest code, of False "Some ''2.0.0''"]
  show ?thesis by (auto simp: b1 b2 r)
qed

text \<open>
  C3, as the specification states it: for every parsed line, the hash is retained if and only if
  it is non-empty and the commit is a merge or all commits are kept. The line that bears the
  resume tag is parsed, has a non-empty hash and two parents, and is not retained: the
  callback returns before the retention test.
\<close>

theorem C3_counterexample:
  "line_hash ''ccc p5 p6#tag: v1.0.0'' = ''ccc'' \<and>
   length (line_hashes ''ccc p5 p6#tag: v1.0.0'') = 3 \<and>
   currentCommits (fst (on_line False (Some ''1.0.0'')
       \<lparr>versionsWithCommits = [], currentCommits = [''aaa''], currentVersion = Some ''2.0.0'',
        processKilled = False\<rparr>
       ''ccc p5 p6#tag: v1.0.0'')) = [''aaa'']"
  by code_simp

text \<open>
  C3, amended: for every parsed history line that does not bear the tag of the resume version,
  the hash is appended to the open bucket (emptied first when the line bears a tag) if and
  only if the hash field is non-empty and either all commits are kept or the
  space-separated token list of the line's hash part has more than two tokens, the hash and
  at least two parents; otherwise nothing is appended.
\<close>

theorem C3_retention_test:
  assumes "\<not> resume_line until l"
  shows "currentCommits (fst (on_line all until s l)) =
           (if line_version l = None then currentCommits s else []) @
           (if line_hash l \<noteq> [] \<and> (all \<or> 2 < length (line_hashes l)) then [line_hash l] else [])"
proof (cases l rule: line_cases [of until])
  case resume
  with assms show ?thesis by simp
next
  case (tagged v)
  then show ?thesis
    by (simp add: on_line_tagged retained_hashes_def retained_def)
next
  case untagged
  then show ?thesis
    by (simp add: on_line_untagged retained_hashes_def retained_def)
qed

text \<open>The theorem of C3 at a merge commit read while the bucket of \<open>2.0.0\<close> is open.\<close>

theorem C3_retention_test_witness:
  "currentCommits (fst (on_line False (Some ''1.0.0'')
       \<lparr>versionsWithCommits = [], currentCommits = [''aaa''], currentVersion = Some ''2.0.0'',
        processKilled = False\<rparr>
       ''bbb p3 p4#'')) = [''aaa'', ''bbb'']"
proof -
  have h: "\<not> resume_line (Some ''1.0.0'') ''bbb p3 p4#''" by code_simp
  have v: "line_version ''bbb p3 p4#'' = None" by code_simp
  have a: "line_hash ''bbb p3 p4#'' = ''bbb''" by code_simp
  have b: "length (line_hashes ''bbb p3 p4#'') = 3" by code_simp
  from C3_retention_test [OF h, of False
      "\<lparr>versionsWithCommits = [], currentCommits = [''aaa''], currentVersion = Some ''2.0.0'',
        processKilled = False\<rparr>"]
  show ?thesis by (simp add: v a b)
qed

subsection \<open>The message resolver\<close>

lemma msg_step_found: "foundConflict st \<Longrightarrow> msg_step st l = st"
  by (simp add: msg_step_def message_line_def Let_def)

lemma msg_step_conflict:
  "conflicts_re (trim l) \<Longrightarrow> msg_step st l = st\<lparr>foundConflict := True\<rparr>"
  by (simp add: msg_step_def message_line_def Let_def)

lemma foldl_msg_step_found [simp]: "foundConflict st \<Longrightarrow> foldl msg_step st ls = st"
  by (induction ls) (simp_all add: msg_step_found)

lemma message_line_acc:
  "message_line (st, acc) l =
     (fst (message_line (st, []) l), acc @ snd (message_line (st, []) l))"
  by (simp add: message_line_def Let_def)

lemma message_line_message:
  "fst (message_line (st\<lparr>message := m\<rparr>, acc) l) = (fst (message_line (st, acc) l))\<lparr>message := m\<rparr>"
  by (simp add: message_line_def Let_def)

lemma message_line_message_same:
  "message (fst (message_line (st, acc) l)) = message st"
  by (simp add: message_line_def Let_def)

lemma message_line_snd:
  "snd (message_line (st\<lparr>message := m\<rparr>, acc) l) = snd (message_line (st, acc) l)"
  by (simp add: message_line_def Let_def)

lemma foldl_message_line:
  "foldl message_line (st, acc) ls = (st', f) \<Longrightarrow>
   foldl msg_step (st\<lparr>message := m @ acc\<rparr>) ls = st'\<lparr>message := m @ f\<rparr>"
proof (induction ls arbitrary: st acc st' f)
  case Nil
  then show ?case by simp
next
  case (Cons l ls)
  obtain st1 f1 where one: "message_line (st, []) l = (st1, f1)"
    by (cases "message_line (st, []) l")
  then have acc: "message_line (st, acc) l = (st1, acc @ f1)"
    using message_line_acc [of st acc l] by simp
  have "msg_step (st\<lparr>message := m @ acc\<rparr>) l = st1\<lparr>message := m @ acc @ f1\<rparr>"
    using one message_line_message [where st = st and m = "m @ acc" and acc = "[]" and l = l]
      message_line_snd [where st = st and m = "m @ acc" and acc = "[]" and l = l]
    by (auto simp: msg_step_def split: prod.splits)
  moreover have "foldl message_line (st1, acc @ f1) ls = (st', f)"
    using Cons.prems acc by simp
  ultimately show ?case using Cons.IH [of st1 "acc @ f1" st' f] by simp
qed

lemma foldl_message_line_message:
  "message (fst (foldl message_line (st, acc) ls)) = message st"
proof (induction ls arbitrary: st acc)
  case Nil
  show ?case by simp
next
  case (Cons l ls)
  obtain st1 f1 where one: "message_line (st, acc) l = (st1, f1)"
    by (cases "message_line (st, acc) l")
  then have "message st1 = message st"
    using message_line_message_same [of st acc l] by simp
  with Cons.IH [of st1 f1] one show ?case by simp
qed

lemma message_data_foldl: "message_data st d = foldl msg_step st (split_lines d)"
proof -
  obtain st' f where r: "foldl message_line (st, []) (split_lines d) = (st', f)"
    by (cases "foldl message_line (st, []) (split_lines d)")
  have m: "message st' = message st"
    using foldl_message_line_message [of st "[]" "split_lines d"] r by simp
  have "foldl msg_step (st\<lparr>message := message st @ []\<rparr>) (split_lines d) =
        st'\<lparr>message := message st @ f\<rparr>"
    using r by (rule foldl_message_line)
  then show ?thesis by (simp add: message_data_def r m)
qed

lemma foldl_message_data:
  "foldl message_data st chunks = foldl msg_step st (all_lines chunks)"
  by (induction chunks arbitrary: st) (simp_all add: all_lines_def message_data_foldl)

lemma getMessageForCommit_lines:
  "getMessageForCommit short (chunks, code) =
   message_close short (foldl msg_step resolver_init (all_lines chunks)) code"
  by (simp add: getMessageForCommit_def foldl_message_data)

lemma message_close_cong:
  "message st = message st' \<Longrightarrow> isMergeRequest st = isMergeRequest st' \<Longrightarrow>
   message_close short st code = message_close short st' code"
  by (simp add: message_close_def message_text_def split: option.splits)

lemma message_close_falsy:
  "\<not> truthy_code code \<Longrightarrow>
   message_close short st code = Inr (message_text short st, isMergeRequest st)"
  by (simp add: message_close_def truthy_code_def split: option.splits)

lemma conflict_cut:
  assumes "conflicts_re (trim c)"
  shows "message_close short (foldl msg_step st (pre @ c # post)) code =
         message_close short (foldl msg_step st pre) code"
proof -
  let ?s = "foldl msg_step st pre"
  have "foldl msg_step st (pre @ c # post) = ?s\<lparr>foundConflict := True\<rparr>"
  proof (cases "foundConflict ?s")
    case True
    then have "?s\<lparr>foundConflict := True\<rparr> = ?s" by simp
    with True show ?thesis by (simp add: msg_step_found)
  next
    case False
    show ?thesis by (simp add: msg_step_conflict [OF assms])
  qed
  then have "message (foldl msg_step st (pre @ c # post)) = message ?s"
    and "isMergeRequest (foldl msg_step st (pre @ c # post)) = isMergeRequest ?s"
    by simp_all
  then show ?thesis by (rule message_close_cong)
qed

lemma ci_prefix_first:
  "ci_prefix (p # ps) s \<noteq> None \<Longrightarrow> \<exists>c cs. s = c # cs \<and> toUpper c = toUpper p"
  by (cases s) (auto split: if_splits)

lemma see_mr_first: "see_mr_re s \<Longrightarrow> \<exists>c cs. s = c # cs \<and> toUpper c = CHR ''S''"
  using ci_prefix_first [of "CHR ''S''" "''ee merge request !''" s]
  by (simp add: see_mr_re_def toUpper_def)

lemma see_mr_not_conflicts: "see_mr_re s \<Longrightarrow> \<not> conflicts_re s"
proof
  assume a: "see_mr_re s" and b: "conflicts_re s"
  from a obtain c cs where s: "s = c # cs" and c: "toUpper c = CHR ''S''"
    using see_mr_first by blast
  have "c \<noteq> CHR ''#''" using c by (auto simp: toUpper_def)
  with b s have "ci_prefix ''Conflicts:'' (c # cs) \<noteq> None" by (simp add: conflicts_re_def)
  then have "toUpper c = toUpper (CHR ''C'')" by (simp split: if_splits)
  with c show False by (simp add: toUpper_def)
qed

lemma see_mr_not_merge: "see_mr_re s \<Longrightarrow> \<not> merge_branch_re s"
proof
  assume a: "see_mr_re s" and b: "merge_branch_re s"
  from a obtain c cs where s: "s = c # cs" and c: "toUpper c = CHR ''S''"
    using see_mr_first by blast
  from b have "ci_prefix ''Merge '' s \<noteq> None"
    by (auto simp: merge_branch_re_def split: option.splits)
  with s have "toUpper c = toUpper (CHR ''M'')" by (simp split: if_splits)
  with c show False by (simp add: toUpper_def)
qed

lemma msg_step_see_mr:
  "see_mr_re (trim l) \<Longrightarrow> \<not> foundConflict st \<Longrightarrow> msg_step st l = st\<lparr>isMergeRequest := True\<rparr>"
  using see_mr_not_conflicts [of "trim l"] see_mr_not_merge [of "trim l"]
  by (simp add: msg_step_def message_line_def Let_def)

lemma msg_step_flag_only:
  "see_mr_re (trim l) \<Longrightarrow>
   message (msg_step st l) = message st \<and> foundConflict (msg_step st l) = foundConflict st"
  by (cases "foundConflict st") (simp_all add: msg_step_found msg_step_see_mr)

lemma found_foldl:
  "foundConflict (foldl msg_step st ls) \<longleftrightarrow>
   foundConflict st \<or> (\<exists>l\<in>set ls. conflicts_re (trim l))"
proof (induction ls arbitrary: st)
  case Nil
  show ?case by simp
next
  case (Cons l ls)
  have "foundConflict (msg_step st l) \<longleftrightarrow> foundConflict st \<or> conflicts_re (trim l)"
    by (simp add: msg_step_def message_line_def Let_def)
  with Cons.IH [of "msg_step st l"] show ?case by auto
qed

lemma msg_step_mr_mono: "isMergeRequest st \<Longrightarrow> isMergeRequest (msg_step st l)"
  by (simp add: msg_step_def message_line_def Let_def)

lemma foldl_mr_mono: "isMergeRequest st \<Longrightarrow> isMergeRequest (foldl msg_step st ls)"
  by (induction ls arbitrary: st) (simp_all add: msg_step_mr_mono)

lemma msg_step_no_mr:
  "\<not> see_mr_re (trim l) \<Longrightarrow> isMergeRequest (msg_step st l) = isMergeRequest st"
  by (simp add: msg_step_def message_line_def Let_def)

lemma foldl_no_mr:
  "\<forall>l\<in>set ls. \<not> see_mr_re (trim l) \<Longrightarrow>
   isMergeRequest (foldl msg_step st ls) = isMergeRequest st"
  by (induction ls arbitrary: st) (simp_all add: msg_step_no_mr)

lemma msg_step_text_indep:
  "message st = message st' \<Longrightarrow> foundConflict st = foundConflict st' \<Longrightarrow>
   message (msg_step st l) = message (msg_step st' l) \<and>
   foundConflict (msg_step st l) = foundConflict (msg_step st' l)"
  by (simp add: msg_step_def message_line_def Let_def)

lemma foldl_text_indep:
  "message st = message st' \<Longrightarrow> foundConflict st = foundConflict st' \<Longrightarrow>
   message (foldl msg_step st ls) = message (foldl msg_step st' ls)"
proof (induction ls arbitrary: st st')
  case Nil
  then show ?case by simp
next
  case (Cons l ls)
  from msg_step_text_indep [OF Cons.prems, of l]
  show ?case using Cons.IH [of "msg_step st l" "msg_step st' l"] by simp
qed

lemma isSpace_cases:
  "isSpace c \<Longrightarrow> c = CHR 0x09 \<or> c = CHR 0x0A \<or> c = CHR 0x0B \<or> c = CHR 0x0C
    \<or> c = CHR 0x0D \<or> c = CHR 0x20 \<or> c = CHR 0xA0"
  by (simp add: isSpace_def)

lemma isSpace_toUpper: "isSpace c \<Longrightarrow> toUpper c = c"
  by (drule isSpace_cases, elim disjE) (simp_all add: toUpper_def)

lemma ci_prefix_split:
  "ci_prefix p s = Some r \<Longrightarrow>
   \<exists>m. s = m @ r \<and> length m = length p \<and> map toUpper m = map toUpper p"
proof (induction p s rule: ci_prefix.induct)
  case (1 s)
  then show ?case by simp
next
  case (2 p ps)
  then show ?case by simp
next
  case (3 p ps c cs)
  then have u: "toUpper c = toUpper p" and "ci_prefix ps cs = Some r"
    by (simp_all split: if_splits)
  with 3 obtain m where "cs = m @ r" "length m = length ps" "map toUpper m = map toUpper ps"
    by auto
  with u have "c # cs = (c # m) @ r \<and> length (c # m) = length (p # ps) \<and>
               map toUpper (c # m) = map toUpper (p # ps)" by simp
  then show ?case by blast
qed

lemma ci_prefix_append:
  "length m = length p \<Longrightarrow> map toUpper m = map toUpper p \<Longrightarrow> ci_prefix p (m @ x) = Some x"
proof (induction p arbitrary: m)
  case Nil
  then show ?case by simp
next
  case (Cons a p)
  then obtain c cs where "m = c # cs" by (cases m) auto
  with Cons show ?case by simp
qed

lemma conflicts_word_no_space:
  assumes "map toUpper m = map toUpper ''Conflicts:''" and "c \<in> set m"
  shows "\<not> isSpace c"
proof
  assume s: "isSpace c"
  have "toUpper c \<in> set (map toUpper m)" using assms(2) by simp
  then have "c \<in> set (map toUpper ''Conflicts:'')"
    using s assms(1) by (simp add: isSpace_toUpper)
  then have "c \<in> set ''CONFLICTS:''" by (simp add: toUpper_def)
  then show False using isSpace_cases [OF s] by (elim disjE) simp_all
qed

lemma rtrim_append:
  assumes "a \<noteq> []" and "\<not> isSpace (last a)"
  shows "rev (dropWhile isSpace (rev (a @ b))) = a @ rev (dropWhile isSpace (rev b))"
proof -
  obtain x xs where r: "rev a = x # xs" using assms(1) by (cases "rev a") auto
  then have "x = last a" by (metis hd_rev list.sel(1))
  then have "dropWhile isSpace (x # xs) = x # xs" using assms(2) by simp
  then have ra: "dropWhile isSpace (rev a) = rev a" by (simp only: r)
  show ?thesis
  proof (cases "\<forall>x\<in>set (rev b). isSpace x")
    case True
    then have "dropWhile isSpace (rev b @ rev a) = dropWhile isSpace (rev a)"
      by (intro dropWhile_append2) simp
    moreover have "dropWhile isSpace (rev b) = []" using True by simp
    ultimately show ?thesis by (simp add: ra)
  next
    case False
    then obtain x where "x \<in> set (rev b)" "\<not> isSpace x" by blast
    then have "dropWhile isSpace (rev b @ rev a) = dropWhile isSpace (rev b) @ rev a"
      by (rule dropWhile_append1)
    then show ?thesis by simp
  qed
qed

lemma trim_core:
  assumes "a \<noteq> []" and "\<not> isSpace (hd a)" and "\<not> isSpace (last a)"
  shows "trim (a @ b) = a @ rev (dropWhile isSpace (rev b))"
proof -
  have "dropWhile isSpace (a @ b) = a @ b" using assms(1,2) by (cases a) simp_all
  then show ?thesis using rtrim_append [OF assms(1,3)] by (simp add: trim_def)
qed

lemma conflicts_re_trim: "conflicts_re l \<Longrightarrow> conflicts_re (trim l)"
proof -
  assume a: "conflicts_re l"
  then obtain c cs where l: "l = c # cs" by (cases l) (auto simp: conflicts_re_def)
  show ?thesis
  proof (cases "c = CHR ''#''")
    case True
    with a l obtain r where "ci_prefix ''Conflicts:'' (dropWhile isSpace cs) = Some r"
      by (auto simp: conflicts_re_def)
    then obtain m where d: "dropWhile isSpace cs = m @ r"
      and len: "length m = length ''Conflicts:''"
      and up: "map toUpper m = map toUpper ''Conflicts:''"
      using ci_prefix_split by blast
    have ns: "\<forall>x\<in>set m. \<not> isSpace x" using conflicts_word_no_space [OF up] by blast
    have ne: "m \<noteq> []" using len by auto
    let ?ws = "takeWhile isSpace cs"
    have cs: "?ws @ m @ r = cs" unfolding d [symmetric] by (rule takeWhile_dropWhile_id)
    let ?a = "c # ?ws @ m"
    have "trim (?a @ r) = ?a @ rev (dropWhile isSpace (rev r))"
    proof (rule trim_core)
      show "?a \<noteq> []" by simp
      show "\<not> isSpace (hd ?a)" using True by (simp add: isSpace_def)
      show "\<not> isSpace (last ?a)" using ne ns by simp
    qed
    then have t: "trim l = c # ?ws @ m @ rev (dropWhile isSpace (rev r))"
      using cs by (simp add: l)
    have "dropWhile isSpace (?ws @ m @ rev (dropWhile isSpace (rev r))) =
          dropWhile isSpace (m @ rev (dropWhile isSpace (rev r)))"
      by (rule dropWhile_append2) (auto dest: set_takeWhileD)
    also have "\<dots> = m @ rev (dropWhile isSpace (rev r))"
      using ne ns by (cases m) simp_all
    finally show ?thesis
      using True t ci_prefix_append [OF len up] by (simp add: conflicts_re_def)
  next
    case False
    with a l obtain r where "ci_prefix ''Conflicts:'' l = Some r"
      by (auto simp: conflicts_re_def)
    then obtain m where d: "l = m @ r"
      and len: "length m = length ''Conflicts:''"
      and up: "map toUpper m = map toUpper ''Conflicts:''"
      using ci_prefix_split by blast
    have ns: "\<forall>x\<in>set m. \<not> isSpace x" using conflicts_word_no_space [OF up] by blast
    have ne: "m \<noteq> []" using len by auto
    have t: "trim l = m @ rev (dropWhile isSpace (rev r))"
      unfolding d using ne ns by (intro trim_core) simp_all
    obtain m' where m: "m = c # m'" using d l ne by (cases m) auto
    show ?thesis
      using False t m ci_prefix_append [OF len up, of "rev (dropWhile isSpace (rev r))"]
      by (simp add: conflicts_re_def)
  qed
qed

text \<open>
  Over the lines of the \<open>data\<close> events, each event split on its own as the handler does: when
  one of these lines matches \<open>^(#\s*)?Conflicts:\<close> (case-insensitive), as it stands or
  trimmed, the resolver returns what it returns for the lines before it.
\<close>

lemma conflicts_cut_per_event:
  assumes "all_lines chunks = pre @ c # post"
      and "conflicts_re c \<or> conflicts_re (trim c)"
      and "all_lines chunks' = pre"
  shows "getMessageForCommit short (chunks, code) = getMessageForCommit short (chunks', code)"
proof -
  have "conflicts_re (trim c)" using assms(2) conflicts_re_trim by blast
  from conflict_cut [OF this, of short resolver_init pre post code]
  show ?thesis by (simp only: getMessageForCommit_lines assms(1) assms(3))
qed

text \<open>
  Over the same lines, for a fetch that succeeds: a line that, trimmed, matches
  \<open>^See merge request !.*\<close> (case-insensitive) and is read before any conflict marker sets
  \<open>isMergeRequest\<close> and leaves the text as it is without the line; with no such line the flag
  stays false.
\<close>

lemma merge_request_line_per_event:
  assumes code: "\<not> truthy_code code"
  shows "(all_lines chunks = pre @ l # post \<and> see_mr_re (trim l) \<and>
          (\<forall>x\<in>set pre. \<not> conflicts_re (trim x)) \<and> all_lines chunks' = pre @ post \<longrightarrow>
            (\<exists>text mr. getMessageForCommit short (chunks, code) = Inr (text, True) \<and>
                       getMessageForCommit short (chunks', code) = Inr (text, mr))) \<and>
         ((\<forall>x\<in>set (all_lines chunks). \<not> see_mr_re (trim x)) \<longrightarrow>
            (\<exists>text. getMessageForCommit short (chunks, code) = Inr (text, False)))"
proof (intro conjI impI)
  assume a: "all_lines chunks = pre @ l # post \<and> see_mr_re (trim l) \<and>
          (\<forall>x\<in>set pre. \<not> conflicts_re (trim x)) \<and> all_lines chunks' = pre @ post"
  let ?sp = "foldl msg_step resolver_init pre"
  have nf: "\<not> foundConflict ?sp" using a by (simp add: found_foldl resolver_init_def)
  then have st: "msg_step ?sp l = ?sp\<lparr>isMergeRequest := True\<rparr>"
    using a by (simp add: msg_step_see_mr)
  have mr: "isMergeRequest (foldl msg_step resolver_init (all_lines chunks))"
    using a st by (simp add: foldl_mr_mono)
  have "message (foldl msg_step (?sp\<lparr>isMergeRequest := True\<rparr>) post) =
        message (foldl msg_step ?sp post)"
    by (rule foldl_text_indep) simp_all
  then have tx: "message (foldl msg_step resolver_init (all_lines chunks)) =
        message (foldl msg_step resolver_init (all_lines chunks'))"
    using a st by simp
  show "\<exists>text mr. getMessageForCommit short (chunks, code) = Inr (text, True) \<and>
                  getMessageForCommit short (chunks', code) = Inr (text, mr)"
    using mr tx code
    by (simp add: getMessageForCommit_lines message_close_falsy message_text_def)
next
  assume "\<forall>x\<in>set (all_lines chunks). \<not> see_mr_re (trim x)"
  then have "\<not> isMergeRequest (foldl msg_step resolver_init (all_lines chunks))"
    by (simp add: foldl_no_mr resolver_init_def)
  then show "\<exists>text. getMessageForCommit short (chunks, code) = Inr (text, False)"
    using code by (simp add: getMessageForCommit_lines message_close_falsy)
qed

text \<open>
  C7: a line of the raw body that matches \<open>^(#\s*)?Conflicts:\<close> and every line after it
  are excluded from the text. The \<open>data\<close> handler splits every event into lines on its own
  and keeps no partial line from one event to the next. When \<open>git show\<close> delivers the body
  below in two events that divide the marker line, neither half matches the pattern, and the
  two halves and the line after them are in the text; delivered in one event, the same body
  is cut at the marker.
\<close>

theorem C7_marker_divided_between_events:
  "getMessageForCommit False
     ([''Fix login\<newline># Conf'', ''licts:\<newline>#  src/a.js\<newline>''], Some 0)
     = Inr (''Fix login\<newline># Conf\<newline>licts:\<newline>#  src/a.js'', False) \<and>
   getMessageForCommit False
     ([''Fix login\<newline># Conflicts:\<newline>#  src/a.js\<newline>''], Some 0)
     = Inr (''Fix login'', False)"
  by code_simp

text \<open>
  C8: a line of the raw body that matches \<open>^See merge request !.*\<close> before any conflict
  marker gives \<open>isMergeRequest = true\<close> and is removed from the text. For the same reason as
  above, when the body below is delivered in two events that divide that line, neither half
  matches: the flag is false and both halves are in the text; delivered in one event, the
  same body gives the flag and the title alone.
\<close>

theorem C8_line_divided_between_events:
  "getMessageForCommit False
     ([''Title\<newline>See merge re'', ''quest !42\<newline>''], Some 0)
     = Inr (''Title\<newline>See merge re\<newline>quest !42'', False) \<and>
   getMessageForCommit False
     ([''Title\<newline>See merge request !42\<newline>''], Some 0)
     = Inr (''Title'', True)"
  by code_simp

subsection \<open>Messages, rendering and failure\<close>

lemma parallelLimit_map:
  "parallelLimit task xs = Inr ys \<Longrightarrow> (\<And>x y. task x = Inr y \<Longrightarrow> g x = y) \<Longrightarrow> ys = map g xs"
proof (induction xs arbitrary: ys)
  case Nil
  then show ?case by simp
next
  case (Cons x xs)
  then show ?case by (auto split: sum.splits)
qed

lemma parallelLimit_fails:
  "\<exists>x\<in>set xs. \<exists>e. task x = Inl e \<Longrightarrow>
   \<exists>x\<in>set xs. \<exists>e. task x = Inl e \<and> parallelLimit task xs = Inl e"
proof (induction xs)
  case Nil
  then show ?case by simp
next
  case (Cons x xs)
  show ?case
  proof (cases "task x")
    case (Inl e)
    then show ?thesis by auto
  next
    case (Inr y)
    with Cons.prems have "\<exists>x\<in>set xs. \<exists>e. task x = Inl e" by auto
    from Cons.IH [OF this] obtain z e where "z \<in> set xs" "task z = Inl e" "parallelLimit task xs = Inl e"
      by blast
    with Inr show ?thesis by auto
  qed
qed

lemma parallelLimit_Inl:
  "parallelLimit task xs = Inl e \<Longrightarrow> \<exists>x\<in>set xs. task x = Inl e"
  by (induction xs) (auto split: sum.splits)

lemma commit_text_task: "commit_task opts removeMd gs h = Inr y \<Longrightarrow> commit_text opts removeMd gs h = y"
  by (simp add: commit_text_def)

lemma version_task_Inr:
  assumes "version_task opts removeMd gs vc = Inr vm"
  shows "vm = \<lparr>version = version vc, messages = bucket_messages opts removeMd gs vc\<rparr>"
proof -
  from assms obtain ms where ms: "getMessagesForListOfCommits opts removeMd gs (commits vc) = Inr ms"
    and vm: "vm = \<lparr>version = version vc, messages = filterEmptyMessages ms\<rparr>"
    by (auto simp: version_task_def split: sum.splits)
  have "ms = map (commit_text opts removeMd gs) (commits vc)"
    using ms unfolding getMessagesForListOfCommits_def
    by (rule parallelLimit_map) (rule commit_text_task)
  then show ?thesis using vm by (simp add: bucket_messages_def filterEmptyMessages_def)
qed

lemma getMessagesForVersions_Inr:
  assumes "getMessagesForVersions opts removeMd gs vcs = Inr vms"
  shows "vms = map (\<lambda>vc. \<lparr>version = version vc, messages = bucket_messages opts removeMd gs vc\<rparr>) vcs"
  using assms unfolding getMessagesForVersions_def
  by (rule parallelLimit_map) (drule version_task_Inr, simp)

lemma forEach_changelog_block:
  "forEach (changelog_block until) acc vms =
   acc @ concat (map (\<lambda>vm. generateVersionChangelog (version vm) (messages vm) @ [LF])
                  (takeWhile (\<lambda>vm. Some (version vm) \<noteq> until) vms))"
  by (induction vms arbitrary: acc) (simp_all add: changelog_block_def)

lemma truthy_code_Some: "truthy_code code \<Longrightarrow> \<exists>n. code = Some n \<and> n \<noteq> 0"
  by (cases code) (simp_all add: truthy_code_def)

lemma on_close_Some:
  "n \<noteq> 0 \<Longrightarrow>
   on_close s (Some n) = Inl (''Unable to get merge commits. Git errored with code #'' @ show_nat n)"
  by (simp add: on_close_def)

lemma message_close_Some:
  "n \<noteq> 0 \<Longrightarrow>
   message_close short st (Some n) =
     Inl (''Unable to get commit message. Git errored with code #'' @ show_nat n)"
  by (simp add: message_close_def)

lemma message_close_Inl:
  assumes "message_close short st code = Inl e"
  shows "\<exists>n. code = Some n \<and> n \<noteq> 0 \<and>
           e = ''Unable to get commit message. Git errored with code #'' @ show_nat n"
proof (cases code)
  case None
  with assms show ?thesis by (simp add: message_close_def)
next
  case (Some n)
  show ?thesis
  proof (cases "n = 0")
    case True
    with Some assms show ?thesis by (simp add: message_close_def)
  next
    case False
    with Some assms have "e = ''Unable to get commit message. Git errored with code #'' @ show_nat n"
      by (simp only: message_close_Some [OF False] sum.inject)
    with Some False show ?thesis by (intro exI conjI)
  qed
qed

lemma commit_task_fails:
  assumes "snd (gs h) = Some n" and "n \<noteq> 0"
  shows "commit_task opts removeMd gs h =
         Inl (''Unable to get commit message. Git errored with code #'' @ show_nat n)"
proof -
  obtain chunks where "gs h = (chunks, Some n)" using assms(1) by (cases "gs h") simp
  then have "getMessageForCommit (shortCommitMessage opts) (gs h) =
             Inl (''Unable to get commit message. Git errored with code #'' @ show_nat n)"
    by (simp only: getMessageForCommit_def prod.case message_close_Some [OF assms(2)])
  then show ?thesis by (simp only: commit_task_def sum.case)
qed

lemma commit_task_Inl:
  assumes "commit_task opts removeMd gs h = Inl e"
  shows "\<exists>n. snd (gs h) = Some n \<and> n \<noteq> 0 \<and>
           e = ''Unable to get commit message. Git errored with code #'' @ show_nat n"
proof -
  obtain chunks code where g: "gs h = (chunks, code)" by (cases "gs h")
  have "getMessageForCommit (shortCommitMessage opts) (gs h) = Inl e"
    using assms unfolding commit_task_def by (simp split: sum.splits prod.splits)
  then have "message_close (shortCommitMessage opts) (foldl message_data resolver_init chunks) code = Inl e"
    by (simp only: g getMessageForCommit_def prod.case)
  from message_close_Inl [OF this] g show ?thesis by simp
qed

lemma version_task_Inl:
  assumes "version_task opts removeMd gs vc = Inl e"
  shows "\<exists>h\<in>set (commits vc). commit_task opts removeMd gs h = Inl e"
proof -
  have "parallelLimit (commit_task opts removeMd gs) (commits vc) = Inl e"
    using assms unfolding version_task_def getMessagesForListOfCommits_def
    by (simp split: sum.splits)
  then show ?thesis by (rule parallelLimit_Inl)
qed

lemma version_task_fails:
  assumes "h \<in> set (commits vc)" and "commit_task opts removeMd gs h = Inl e"
  shows "\<exists>e'. version_task opts removeMd gs vc = Inl e'"
proof -
  have "\<exists>x\<in>set (commits vc). \<exists>e. commit_task opts removeMd gs x = Inl e"
    using assms by (intro bexI exI)
  then obtain e' where "parallelLimit (commit_task opts removeMd gs) (commits vc) = Inl e'"
    using parallelLimit_fails [of "commits vc" "commit_task opts removeMd gs"] by auto
  then have "version_task opts removeMd gs vc = Inl e'"
    by (simp add: version_task_def getMessagesForListOfCommits_def)
  then show ?thesis ..
qed

lemma getMessagesForVersions_fails:
  assumes "vc \<in> set vcs" and "h \<in> set (commits vc)"
      and "commit_task opts removeMd gs h = Inl e"
  shows "\<exists>vc'\<in>set vcs. \<exists>h'\<in>set (commits vc'). \<exists>e'.
           commit_task opts removeMd gs h' = Inl e' \<and>
           getMessagesForVersions opts removeMd gs vcs = Inl e'"
proof -
  from version_task_fails [OF assms(2,3)] assms(1)
  have "\<exists>x\<in>set vcs. \<exists>e. version_task opts removeMd gs x = Inl e" by (intro bexI)
  then obtain vc' e' where vc': "vc' \<in> set vcs"
    and t: "version_task opts removeMd gs vc' = Inl e'"
    and p: "parallelLimit (version_task opts removeMd gs) vcs = Inl e'"
    using parallelLimit_fails [of vcs "version_task opts removeMd gs"] by auto
  from version_task_Inl [OF t] obtain h' where h': "h' \<in> set (commits vc')"
    and c: "commit_task opts removeMd gs h' = Inl e'" by auto
  have "getMessagesForVersions opts removeMd gs vcs = Inl e'"
    using p by (simp add: getMessagesForVersions_def)
  with vc' h' c show ?thesis by (intro bexI exI conjI)
qed

lemma mergelogga_aborts:
  assumes "readChangelogFile w = Inr changelog"
      and "new_changelog opts removeMd w
             (untilVersion (getLastVersionFromChangelog opts changelog)) = Inl e"
  shows "mergelogga opts removeMd w =
           \<lparr>written = None, err_stream = [''ERROR: '' @ e], exit_status = 1\<rparr>"
  using assms by (simp add: mergelogga_def handleFinish_def)

text \<open>
  C9: with "all commits" off, the task of a commit whose message is not marked
  \<open>isMergeRequest\<close> gives the empty string. When all messages are fetched, the list passed
  to rendering holds, in order, the buckets that have a non-empty message, each with its
  non-empty messages only; a bucket all of whose commits are unmarked has no message and is
  not in that list, and the rendered changelog is made of the blocks of that list alone.
\<close>

theorem C9_unmarked_commits_and_empty_buckets:
  assumes off: "\<not> allCommits opts"
      and ok: "getMessagesForVersions opts removeMd gs vcs = Inr vms"
  shows "(\<forall>vc\<in>set vcs. \<forall>h\<in>set (commits vc). \<forall>m.
            getMessageForCommit (shortCommitMessage opts) (gs h) = Inr (m, False) \<longrightarrow>
            commit_task opts removeMd gs h = Inr []) \<and>
         filterEmptyVersions vms =
           map (\<lambda>vc. \<lparr>version = version vc, messages = bucket_messages opts removeMd gs vc\<rparr>)
             (filter (\<lambda>vc. bucket_messages opts removeMd gs vc \<noteq> []) vcs) \<and>
         (\<forall>vc\<in>set vcs. [] \<notin> set (bucket_messages opts removeMd gs vc)) \<and>
         (\<forall>vc\<in>set vcs.
            (\<forall>h\<in>set (commits vc). \<exists>m.
               getMessageForCommit (shortCommitMessage opts) (gs h) = Inr (m, False)) \<longrightarrow>
            bucket_messages opts removeMd gs vc = []) \<and>
         generateChangelog until (filterEmptyVersions vms) =
           concat (map (\<lambda>vc. generateVersionChangelog (version vc)
                                (bucket_messages opts removeMd gs vc) @ [LF])
                    (takeWhile (\<lambda>vc. Some (version vc) \<noteq> until)
                       (filter (\<lambda>vc. bucket_messages opts removeMd gs vc \<noteq> []) vcs)))"
proof -
  let ?g = "\<lambda>vc. \<lparr>version = version vc, messages = bucket_messages opts removeMd gs vc\<rparr>"
  let ?P = "\<lambda>vc. bucket_messages opts removeMd gs vc \<noteq> []"
  have task: "commit_task opts removeMd gs h = Inr []"
    if "getMessageForCommit (shortCommitMessage opts) (gs h) = Inr (m, False)" for h m
    using that off by (simp add: commit_task_def)
  have vms: "vms = map ?g vcs" using ok by (rule getMessagesForVersions_Inr)
  have fil: "filterEmptyVersions vms = map ?g (filter ?P vcs)"
    by (simp add: vms filterEmptyVersions_def filter_map comp_def)
  have ne: "[] \<notin> set (bucket_messages opts removeMd gs vc)" for vc
    by (simp add: bucket_messages_def)
  have emp: "bucket_messages opts removeMd gs vc = []"
    if "\<forall>h\<in>set (commits vc). \<exists>m.
          getMessageForCommit (shortCommitMessage opts) (gs h) = Inr (m, False)" for vc
  proof -
    have "commit_text opts removeMd gs h = []" if "h \<in> set (commits vc)" for h
      using that \<open>\<forall>h\<in>set (commits vc). _\<close> task by (auto simp: commit_text_def)
    then show ?thesis by (simp add: bucket_messages_def filter_empty_conv)
  qed
  have ren: "generateChangelog until (filterEmptyVersions vms) =
           concat (map (\<lambda>vc. generateVersionChangelog (version vc)
                                (bucket_messages opts removeMd gs vc) @ [LF])
                    (takeWhile (\<lambda>vc. Some (version vc) \<noteq> until) (filter ?P vcs)))"
    by (simp add: generateChangelog_def forEach_changelog_block fil takeWhile_map comp_def)
  from task fil ne emp ren show ?thesis by blast
qed

text \<open>
  The theorem of C9 at two buckets: one with a merge request and a plain commit, one with a
  plain commit only.
\<close>

theorem C9_unmarked_commits_and_empty_buckets_witness:
  "filterEmptyVersions
     [\<lparr>version = ''1.0.0'', messages = [''Add feature'']\<rparr>, \<lparr>version = ''0.9.0'', messages = []\<rparr>]
     = [\<lparr>version = ''1.0.0'', messages = [''Add feature'']\<rparr>] \<and>
   generateChangelog None (filterEmptyVersions
     [\<lparr>version = ''1.0.0'', messages = [''Add feature'']\<rparr>, \<lparr>version = ''0.9.0'', messages = []\<rparr>])
     = ''1.0.0\<newline>=====\<newline> * Add feature\<newline>\<newline>''"
proof -
  let ?opts = "\<lparr>allCommits = False, overwriteChangelog = False, startVersion = None,
      shortCommitMessage = True\<rparr>"
  let ?gs = "\<lambda>h. if h = ''b2''
      then ([''Merge branch x\<newline>\<newline>Add feature\<newline>\<newline>See merge request !7\<newline>''], Some 0)
      else ([''Plain commit\<newline>''], Some (0::nat))"
  let ?vcs = "[\<lparr>version = ''1.0.0'', commits = [''b2'', ''d4'']\<rparr>,
      \<lparr>version = ''0.9.0'', commits = [''c3'']\<rparr>]"
  let ?vms = "[\<lparr>version = ''1.0.0'', messages = [''Add feature'']\<rparr>,
      \<lparr>version = ''0.9.0'', messages = []\<rparr>]"
  have off: "\<not> allCommits ?opts" by simp
  have ok: "getMessagesForVersions ?opts (\<lambda>m. m) ?gs ?vcs = Inr ?vms" by code_simp
  have b1: "bucket_messages ?opts (\<lambda>m. m) ?gs \<lparr>version = ''1.0.0'', commits = [''b2'', ''d4'']\<rparr>
      = [''Add feature'']" by code_simp
  have b2: "bucket_messages ?opts (\<lambda>m. m) ?gs \<lparr>version = ''0.9.0'', commits = [''c3'']\<rparr> = []"
    by code_simp
  have g: "generateVersionChangelog ''1.0.0'' [''Add feature''] = ''1.0.0\<newline>=====\<newline> * Add feature\<newline>''"
    by code_simp
  from C9_unmarked_commits_and_empty_buckets [OF off ok, of None]
  have "filterEmptyVersions ?vms =
           map (\<lambda>vc. \<lparr>version = version vc, messages = bucket_messages ?opts (\<lambda>m. m) ?gs vc\<rparr>)
             (filter (\<lambda>vc. bucket_messages ?opts (\<lambda>m. m) ?gs vc \<noteq> []) ?vcs)"
    and "generateChangelog None (filterEmptyVersions ?vms) =
           concat (map (\<lambda>vc. generateVersionChangelog (version vc)
                                (bucket_messages ?opts (\<lambda>m. m) ?gs vc) @ [LF])
                    (takeWhile (\<lambda>vc. Some (version vc) \<noteq> None)
                       (filter (\<lambda>vc. bucket_messages ?opts (\<lambda>m. m) ?gs vc \<noteq> []) ?vcs)))"
    by blast+
  then show ?thesis by (simp add: b1 b2 g LF_def)
qed

text \<open>
  C6: in a run that has read the changelog, if \<open>git log\<close> closes with a nonzero code, or if
  it closes without one and \<open>git show\<close> closes with a nonzero code for a commit of some
  bucket, the run aborts: nothing is handed to \<open>fs.writeFile\<close>, the one line on the error
  stream is \<open>ERROR:\<close> with the description of the failure (of \<open>git log\<close>, or of a failing
  \<open>git show\<close>), and the exit status is 1.
\<close>

theorem C6_provider_failure_aborts:
  assumes read: "readChangelogFile w = Inr changelog"
  shows "(truthy_code (snd (git_log w)) \<longrightarrow>
            (\<exists>n. snd (git_log w) = Some n \<and> n \<noteq> 0 \<and>
               mergelogga opts removeMd w =
                 \<lparr>written = None,
                  err_stream = [''ERROR: '' @ ''Unable to get merge commits. Git errored with code #'' @ show_nat n],
                  exit_status = 1\<rparr>)) \<and>
         (\<forall>vcs.
            getVersionsWithCommits (allCommits opts)
              (untilVersion (getLastVersionFromChangelog opts changelog)) (startVersion opts)
              (fst (git_log w)) (snd (git_log w)) = Inr vcs \<and>
            (\<exists>vc\<in>set vcs. \<exists>h\<in>set (commits vc). truthy_code (snd (git_show w h))) \<longrightarrow>
            (\<exists>vc\<in>set vcs. \<exists>h\<in>set (commits vc). \<exists>n.
               snd (git_show w h) = Some n \<and> n \<noteq> 0 \<and>
               mergelogga opts removeMd w =
                 \<lparr>written = None,
                  err_stream = [''ERROR: '' @ ''Unable to get commit message. Git errored with code #'' @ show_nat n],
                  exit_status = 1\<rparr>))"
proof (intro conjI impI allI)
  let ?g = "getLastVersionFromChangelog opts changelog"
  assume "truthy_code (snd (git_log w))"
  then obtain n where n: "snd (git_log w) = Some n" "n \<noteq> 0"
    using truthy_code_Some by blast
  have "new_changelog opts removeMd w (untilVersion ?g) =
        Inl (''Unable to get merge commits. Git errored with code #'' @ show_nat n)"
    unfolding new_changelog_def getVersionsWithCommits_def n(1) on_close_Some [OF n(2)]
    by (simp only: sum.case)
  from mergelogga_aborts [OF read this] n
  show "\<exists>n. snd (git_log w) = Some n \<and> n \<noteq> 0 \<and>
               mergelogga opts removeMd w =
                 \<lparr>written = None,
                  err_stream = [''ERROR: '' @ ''Unable to get merge commits. Git errored with code #'' @ show_nat n],
                  exit_status = 1\<rparr>"
    by (intro exI conjI)
next
  fix vcs
  let ?g = "getLastVersionFromChangelog opts changelog"
  assume a: "getVersionsWithCommits (allCommits opts) (untilVersion ?g) (startVersion opts)
              (fst (git_log w)) (snd (git_log w)) = Inr vcs \<and>
            (\<exists>vc\<in>set vcs. \<exists>h\<in>set (commits vc). truthy_code (snd (git_show w h)))"
  then obtain vc h where vc: "vc \<in> set vcs" and h: "h \<in> set (commits vc)"
    and t: "truthy_code (snd (git_show w h))"
    by blast
  from t obtain k where k: "snd (git_show w h) = Some k" "k \<noteq> 0"
    using truthy_code_Some by blast
  note c = commit_task_fails [where gs = "git_show w" and h = h and opts = opts
      and removeMd = removeMd, OF k]
  from getMessagesForVersions_fails [where gs = "git_show w", OF vc h c]
  obtain vc' h' e' where f: "vc' \<in> set vcs" "h' \<in> set (commits vc')"
    and c': "commit_task opts removeMd (git_show w) h' = Inl e'"
    and e: "getMessagesForVersions opts removeMd (git_show w) vcs = Inl e'"
    by blast
  from commit_task_Inl [OF c'] obtain n where n: "snd (git_show w h') = Some n" "n \<noteq> 0"
    and e': "e' = ''Unable to get commit message. Git errored with code #'' @ show_nat n"
    by blast
  have "new_changelog opts removeMd w (untilVersion ?g) = Inl e'"
    unfolding new_changelog_def using a e by (simp only: sum.case)
  from mergelogga_aborts [OF read this] f n
  show "\<exists>vc\<in>set vcs. \<exists>h\<in>set (commits vc). \<exists>n.
               snd (git_show w h) = Some n \<and> n \<noteq> 0 \<and>
               mergelogga opts removeMd w =
                 \<lparr>written = None,
                  err_stream = [''ERROR: '' @ ''Unable to get commit message. Git errored with code #'' @ show_nat n],
                  exit_status = 1\<rparr>"
    unfolding e' by (intro bexI exI conjI)
qed

text \<open>The theorem of C6 at a failing \<open>git log\<close>, and at a failing \<open>git show\<close>.\<close>

theorem C6_provider_failure_aborts_witness:
  "mergelogga
     \<lparr>allCommits = False, overwriteChangelog = False, startVersion = None,
      shortCommitMessage = True\<rparr>
     (\<lambda>m. m)
     \<lparr>changelog_file = Absent, git_log = ([], Some 128),
      git_show = (\<lambda>h. ([], Some 0)), write_error = None\<rparr>
   = \<lparr>written = None,
      err_stream = [''ERROR: Unable to get merge commits. Git errored with code #128''],
      exit_status = 1\<rparr> \<and>
   mergelogga
     \<lparr>allCommits = False, overwriteChangelog = False, startVersion = None,
      shortCommitMessage = True\<rparr>
     (\<lambda>m. m)
     \<lparr>changelog_file = Absent, git_log = ([''b2 p1 p2#tag: v1.0.0\<newline>''], Some 0),
      git_show = (\<lambda>h. ([], Some 1)), write_error = None\<rparr>
   = \<lparr>written = None,
      err_stream = [''ERROR: Unable to get commit message. Git errored with code #1''],
      exit_status = 1\<rparr>"
proof -
  let ?opts = "\<lparr>allCommits = False, overwriteChangelog = False, startVersion = None,
      shortCommitMessage = True\<rparr>"
  let ?wa = "\<lparr>changelog_file = Absent, git_log = ([], Some 128),
      git_show = (\<lambda>h. ([], Some 0)), write_error = None\<rparr>"
  let ?wb = "\<lparr>changelog_file = Absent, git_log = ([''b2 p1 p2#tag: v1.0.0\<newline>''], Some 0),
      git_show = (\<lambda>h. ([], Some 1)), write_error = None\<rparr>"
  have ra: "readChangelogFile ?wa = Inr []" by (simp add: readChangelogFile_def)
  have rb: "readChangelogFile ?wb = Inr []" by (simp add: readChangelogFile_def)
  have ta: "truthy_code (snd (git_log ?wa))" by (simp add: truthy_code_def)
  have s128: "show_nat 128 = ''128''" by code_simp
  have s1: "show_nat 1 = ''1''" by code_simp
  have A: "mergelogga ?opts (\<lambda>m. m) ?wa = \<lparr>written = None,
      err_stream = [''ERROR: Unable to get merge commits. Git errored with code #128''],
      exit_status = 1\<rparr>"
    using C6_provider_failure_aborts [OF ra, of ?opts "\<lambda>m. m"] ta s128 by auto
  have g: "getVersionsWithCommits (allCommits ?opts)
              (untilVersion (getLastVersionFromChangelog ?opts [])) (startVersion ?opts)
              (fst (git_log ?wb)) (snd (git_log ?wb)) = Inr [\<lparr>version = ''1.0.0'', commits = [''b2'']\<rparr>]"
    by code_simp
  have tb: "\<exists>vc\<in>set [\<lparr>version = ''1.0.0'', commits = [''b2'']\<rparr>]. \<exists>h\<in>set (commits vc).
      truthy_code (snd (git_show ?wb h))"
    by (simp add: truthy_code_def)
  have B: "mergelogga ?opts (\<lambda>m. m) ?wb = \<lparr>written = None,
      err_stream = [''ERROR: Unable to get commit message. Git errored with code #1''],
      exit_status = 1\<rparr>"
    using C6_provider_failure_aborts [OF rb, of ?opts "\<lambda>m. m"] g tb s1 by auto
  from A B show ?thesis by (rule conjI)
qed

subsection \<open>The changelog file and the whole run\<close>

lemma changelog_line_body:
  "truthy (untilVersion g) \<Longrightarrow>
   changelog_line g l = g\<lparr>oldChangelog := oldChangelog g @ l @ [LF]\<rparr>"
  by (simp add: changelog_line_def)

lemma foldl_changelog_body:
  "truthy (untilVersion g) \<Longrightarrow>
   foldl changelog_line g ls =
     g\<lparr>oldChangelog := oldChangelog g @ concat (map (\<lambda>l. l @ [LF]) ls)\<rparr>"
proof (induction ls arbitrary: g)
  case Nil
  show ?case by simp
next
  case (Cons l ls)
  have "truthy (untilVersion (changelog_line g l))"
    using Cons.prems by (simp add: changelog_line_body)
  from Cons.IH [OF this] show ?case using Cons.prems by (simp add: changelog_line_body)
qed

lemma foldl_changelog_header:
  "\<not> truthy (untilVersion g) \<Longrightarrow>
   oldChangelogHeader (foldl changelog_line g ls) =
     oldChangelogHeader g @
       concat (map (\<lambda>l. l @ [LF]) (takeWhile (\<lambda>l. \<not> versionRegExp l) ls)) \<and>
   oldChangelog (foldl changelog_line g ls) =
     oldChangelog g @
       concat (map (\<lambda>l. l @ [LF]) (dropWhile (\<lambda>l. \<not> versionRegExp l) ls)) \<and>
   untilVersion (foldl changelog_line g ls) =
     (case dropWhile (\<lambda>l. \<not> versionRegExp l) ls of [] \<Rightarrow> untilVersion g | v # _ \<Rightarrow> Some v)"
proof (induction ls arbitrary: g)
  case Nil
  show ?case by simp
next
  case (Cons l ls)
  show ?case
  proof (cases "versionRegExp l")
    case True
    then have t: "truthy (Some l)" by (auto simp: truthy_def dest: versionRegExp_nonempty)
    have st: "changelog_line g l =
              g\<lparr>untilVersion := Some l, oldChangelog := oldChangelog g @ l @ [LF]\<rparr>"
      using True Cons.prems t by (simp add: changelog_line_def)
    have "truthy (untilVersion (changelog_line g l))" using t by (simp add: st)
    from foldl_changelog_body [OF this, of ls] show ?thesis
      using True by (simp add: st)
  next
    case False
    let ?g' = "g\<lparr>oldChangelogHeader := oldChangelogHeader g @ l @ [LF]\<rparr>"
    have st: "changelog_line g l = ?g'"
      using False Cons.prems by (simp add: changelog_line_def)
    have n: "\<not> truthy (untilVersion ?g')" using Cons.prems by simp
    have f: "foldl changelog_line g (l # ls) = foldl changelog_line ?g' ls" by (simp add: st)
    have d: "dropWhile (\<lambda>l. \<not> versionRegExp l) (l # ls) = dropWhile (\<lambda>l. \<not> versionRegExp l) ls"
      "takeWhile (\<lambda>l. \<not> versionRegExp l) (l # ls) = l # takeWhile (\<lambda>l. \<not> versionRegExp l) ls"
      using False by simp_all
    show ?thesis unfolding f d using Cons.IH [OF n] by (simp cong: list.case_cong)
  qed
qed

lemma terminated_join:
  "bs \<noteq> [] \<Longrightarrow> concat (map (\<lambda>l. l @ [LF]) bs) = join_lines bs @ [LF]"
  by (induction bs rule: join_lines.induct) simp_all

lemma join_lines_append:
  "bs \<noteq> [] \<Longrightarrow> join_lines (hs @ bs) = concat (map (\<lambda>l. l @ [LF]) hs) @ join_lines bs"
proof (induction hs)
  case Nil
  show ?case by simp
next
  case (Cons h hs)
  then obtain x xs where "hs @ bs = x # xs" by (cases "hs @ bs") auto
  with Cons show ?case by simp
qed

lemma split_lines_nonempty: "split_lines s \<noteq> []"
proof (induction s rule: split_lines.induct)
  case 1
  show ?case by simp
next
  case (2 c cs)
  then show ?case by (cases "split_lines cs") auto
qed

lemma join_cons_first: "xs \<noteq> [] \<Longrightarrow> join_lines (cons_first c xs) = c # join_lines xs"
  by (cases xs rule: join_lines.cases) simp_all

lemma join_empty_first: "xs \<noteq> [] \<Longrightarrow> join_lines ([] # xs) = LF # join_lines xs"
  by (cases xs) simp_all

lemma join_split_lines: "\<not> has_crlf s \<Longrightarrow> join_lines (split_lines s) = s"
proof (induction s)
  case Nil
  show ?case by simp
next
  case (Cons c cs)
  then have ih: "join_lines (split_lines cs) = cs" and nc: "\<not> (c = CR \<and> take 1 cs = [LF])"
    by simp_all
  show ?case
  proof (cases "c = LF")
    case True
    then show ?thesis by (simp add: join_empty_first split_lines_nonempty ih)
  next
    case False
    then show ?thesis using nc by (auto simp: join_cons_first split_lines_nonempty ih)
  qed
qed

lemma getLastVersion_off:
  "overwriteChangelog opts \<or> old = [] \<Longrightarrow>
   getLastVersionFromChangelog opts old = changelog_vars_init"
  by (auto simp: getLastVersionFromChangelog_def)

lemma getLastVersion_on:
  assumes "\<not> overwriteChangelog opts" and "old \<noteq> []"
  shows "oldChangelogHeader (getLastVersionFromChangelog opts old) =
           concat (map (\<lambda>l. l @ [LF]) (takeWhile (\<lambda>l. \<not> versionRegExp l) (split_lines old))) \<and>
         oldChangelog (getLastVersionFromChangelog opts old) =
           join_lines (dropWhile (\<lambda>l. \<not> versionRegExp l) (split_lines old)) \<and>
         untilVersion (getLastVersionFromChangelog opts old) =
           (case dropWhile (\<lambda>l. \<not> versionRegExp l) (split_lines old) of
              [] \<Rightarrow> None | v # _ \<Rightarrow> Some v)"
proof -
  let ?bs = "dropWhile (\<lambda>l. \<not> versionRegExp l) (split_lines old)"
  have i: "\<not> truthy (untilVersion changelog_vars_init)"
    by (simp add: changelog_vars_init_def truthy_def)
  note f = foldl_changelog_header [OF i, of "split_lines old"]
  have "take (length (concat (map (\<lambda>l. l @ [LF]) ?bs)) - 1) (concat (map (\<lambda>l. l @ [LF]) ?bs)) =
        join_lines ?bs"
  proof (cases "?bs = []")
    case True
    show ?thesis by (simp only: True) simp
  next
    case False
    show ?thesis unfolding terminated_join [OF False] by simp
  qed
  then show ?thesis
    using assms f
    by (simp add: getLastVersionFromChangelog_def Let_def changelog_vars_init_def
        cong: list.case_cong)
qed

lemma getLastVersion_verbatim:
  assumes "\<not> overwriteChangelog opts" and "\<not> has_crlf old"
      and "\<exists>l\<in>set (split_lines old). versionRegExp l"
  shows "oldChangelogHeader (getLastVersionFromChangelog opts old) @
         oldChangelog (getLastVersionFromChangelog opts old) = old"
proof -
  let ?P = "\<lambda>l. \<not> versionRegExp l"
  have ne: "old \<noteq> []" using assms(3) by (auto simp: versionRegExp_def digits1_def)
  have bs: "dropWhile ?P (split_lines old) \<noteq> []" using assms(3) by (simp add: dropWhile_eq_Nil_conv)
  have "concat (map (\<lambda>l. l @ [LF]) (takeWhile ?P (split_lines old))) @
        join_lines (dropWhile ?P (split_lines old)) =
        join_lines (takeWhile ?P (split_lines old) @ dropWhile ?P (split_lines old))"
    by (rule join_lines_append [OF bs, symmetric])
  also have "\<dots> = old" using assms(2) by (simp add: join_split_lines)
  finally show ?thesis using getLastVersion_on [OF assms(1) ne] by simp
qed

lemma written_handleFinish: "written (handleFinish e wr) = wr"
  by (simp add: handleFinish_def split: option.splits)

lemma mergelogga_written:
  assumes "readChangelogFile w = Inr old"
      and "new_changelog opts removeMd w
             (untilVersion (getLastVersionFromChangelog opts old)) = Inr c"
  shows "written (mergelogga opts removeMd w) =
           (if c = [] then None
            else Some (oldChangelogHeader (getLastVersionFromChangelog opts old) @ c @
                       oldChangelog (getLastVersionFromChangelog opts old)))"
  using assms
  by (simp add: mergelogga_def Let_def writeChangelogFile_def written_handleFinish)

lemma segmenter_ignores_pre_tag_lines:
  assumes "all_lines chunks = pre @ all_lines chunks'"
      and "\<forall>l\<in>set pre. line_version l = None"
  shows "getVersionsWithCommits all until None chunks code =
         getVersionsWithCommits all until None chunks' code"
proof -
  let ?s0 = "segmenter_init None"
  have k: "\<not> processKilled ?s0" and v: "\<not> truthy (currentVersion ?s0)"
    by (simp_all add: segmenter_init_def truthy_def)
  have "foldl (seg_step all until) ?s0 pre =
        ?s0\<lparr>currentCommits := currentCommits ?s0 @ retained_hashes all pre\<rparr>"
    using k assms(2) by (rule foldl_untagged)
  then have "on_close (foldl (seg_step all until) ?s0 (pre @ all_lines chunks')) code =
             on_close (foldl (seg_step all until) ?s0 (all_lines chunks')) code"
    using pre_tag_commits_dropped [OF v] by simp
  then show ?thesis by (simp add: getVersionsWithCommits_lines assms(1))
qed

lemma mergelogga_git_log:
  assumes "getVersionsWithCommits (allCommits opts) until (startVersion opts) chunks code =
           getVersionsWithCommits (allCommits opts) until (startVersion opts) chunks' code"
  shows "new_changelog opts removeMd (w\<lparr>git_log := (chunks, code)\<rparr>) until =
         new_changelog opts removeMd (w\<lparr>git_log := (chunks', code)\<rparr>) until"
  using assms by (simp add: new_changelog_def cong: sum.case_cong)

lemma readChangelogFile_git_log [simp]:
  "readChangelogFile (w\<lparr>git_log := x\<rparr>) = readChangelogFile w"
  by (simp add: readChangelogFile_def)

lemma writeChangelogFile_git_log [simp]:
  "writeChangelogFile g (w\<lparr>git_log := x\<rparr>) c = writeChangelogFile g w c"
  by (simp add: writeChangelogFile_def)

text \<open>
  C4, as the specification states it: the body from the version line onward is preserved
  verbatim beneath the new blocks. The old file below ends its lines with a carriage return
  and a line feed; the run renders the block of \<open>2.0.0\<close> and writes the old lines with a
  line feed only, not the old header, the block and the old body as they were.
\<close>

theorem C4_counterexample:
  "written (mergelogga
     \<lparr>allCommits = False, overwriteChangelog = False, startVersion = None,
      shortCommitMessage = True\<rparr>
     (\<lambda>m. m)
     \<lparr>changelog_file = Present (''Changes'' @ [CR, LF] @ ''1.0.0'' @ [CR, LF] @ ''====='' @ [CR, LF] @ '' * old''),
      git_log = ([''a1 p0 p1#tag: v2.0.0\<newline>b2 p1#tag: v1.0.0\<newline>''], None),
      git_show = (\<lambda>h. ([''Add feature\<newline>\<newline>See merge request !7\<newline>''], Some 0)),
      write_error = None\<rparr>)
   = Some ''Changes\<newline>2.0.0\<newline>=====\<newline> * Add feature\<newline>\<newline>1.0.0\<newline>=====\<newline> * old'' \<and>
   written (mergelogga
     \<lparr>allCommits = False, overwriteChangelog = False, startVersion = None,
      shortCommitMessage = True\<rparr>
     (\<lambda>m. m)
     \<lparr>changelog_file = Present (''Changes'' @ [CR, LF] @ ''1.0.0'' @ [CR, LF] @ ''====='' @ [CR, LF] @ '' * old''),
      git_log = ([''a1 p0 p1#tag: v2.0.0\<newline>b2 p1#tag: v1.0.0\<newline>''], None),
      git_show = (\<lambda>h. ([''Add feature\<newline>\<newline>See merge request !7\<newline>''], Some 0)),
      write_error = None\<rparr>)
   \<noteq> Some ((''Changes'' @ [CR, LF]) @ ''2.0.0\<newline>=====\<newline> * Add feature\<newline>\<newline>'' @
            (''1.0.0'' @ [CR, LF] @ ''====='' @ [CR, LF] @ '' * old''))"
  by code_simp

text \<open>
  C4, amended: in a run that reads the old file and renders the changelog \<open>c\<close>, nothing is
  written when \<open>c\<close> is empty (no version block); otherwise the text written is
  \<open>oldChangelogHeader\<close>, then \<open>c\<close>, then \<open>oldChangelog\<close>. In overwrite mode, or with an empty
  or absent file, both are empty. Otherwise \<open>oldChangelogHeader\<close> is the lines of the old
  file before the first line that is a version, each followed by a line feed, and
  \<open>oldChangelog\<close> is the lines from that line on, joined by line feeds: the line ends
  \<open>\r\n\<close> of the old file are written as \<open>\n\<close>. When the old file has a version line and no
  \<open>\r\n\<close>, header and body together are the old file verbatim.
\<close>

theorem C4_written_changelog:
  assumes read: "readChangelogFile w = Inr old"
      and new: "new_changelog opts removeMd w
                  (untilVersion (getLastVersionFromChangelog opts old)) = Inr c"
  shows "(let g = getLastVersionFromChangelog opts old in
           written (mergelogga opts removeMd w) =
             (if c = [] then None else Some (oldChangelogHeader g @ c @ oldChangelog g)) \<and>
           (overwriteChangelog opts \<or> old = [] \<longrightarrow>
              oldChangelogHeader g = [] \<and> oldChangelog g = []) \<and>
           (\<not> overwriteChangelog opts \<and> old \<noteq> [] \<longrightarrow>
              oldChangelogHeader g =
                concat (map (\<lambda>l. l @ [LF])
                  (takeWhile (\<lambda>l. \<not> versionRegExp l) (split_lines old))) \<and>
              oldChangelog g =
                join_lines (dropWhile (\<lambda>l. \<not> versionRegExp l) (split_lines old))) \<and>
           (\<not> overwriteChangelog opts \<and> \<not> has_crlf old \<and>
            (\<exists>l\<in>set (split_lines old). versionRegExp l) \<longrightarrow>
              oldChangelogHeader g @ oldChangelog g = old))"
proof -
  let ?g = "getLastVersionFromChangelog opts old"
  note a = mergelogga_written [OF read new]
  have b: "oldChangelogHeader ?g = [] \<and> oldChangelog ?g = []"
    if "overwriteChangelog opts \<or> old = []"
    using getLastVersion_off [OF that] by (simp add: changelog_vars_init_def)
  have c: "oldChangelogHeader ?g =
             concat (map (\<lambda>l. l @ [LF])
               (takeWhile (\<lambda>l. \<not> versionRegExp l) (split_lines old))) \<and>
           oldChangelog ?g =
             join_lines (dropWhile (\<lambda>l. \<not> versionRegExp l) (split_lines old))"
    if "\<not> overwriteChangelog opts \<and> old \<noteq> []"
    using that getLastVersion_on [of opts old] by simp
  have d: "oldChangelogHeader ?g @ oldChangelog ?g = old"
    if "\<not> overwriteChangelog opts \<and> \<not> has_crlf old \<and>
        (\<exists>l\<in>set (split_lines old). versionRegExp l)"
    using that getLastVersion_verbatim [of opts old] by simp
  from a b c d show ?thesis unfolding Let_def by blast
qed

text \<open>
  The theorem of C4 at a first run that prepends the block of \<open>2.0.0\<close>, at a second run on
  the file just written, which writes nothing, and at a run in overwrite mode.
\<close>

theorem C4_written_changelog_witness:
  "written (mergelogga
     \<lparr>allCommits = False, overwriteChangelog = False, startVersion = None,
      shortCommitMessage = True\<rparr>
     (\<lambda>m. m)
     \<lparr>changelog_file = Present ''Changes\<newline>1.0.0\<newline>=====\<newline> * old'',
      git_log = ([''a1 p0 p1#tag: v2.0.0\<newline>b2 p1#tag: v1.0.0\<newline>''], None),
      git_show = (\<lambda>h. ([''Add feature\<newline>\<newline>See merge request !7\<newline>''], Some 0)),
      write_error = None\<rparr>)
   = Some ''Changes\<newline>2.0.0\<newline>=====\<newline> * Add feature\<newline>\<newline>1.0.0\<newline>=====\<newline> * old'' \<and>
   written (mergelogga
     \<lparr>allCommits = False, overwriteChangelog = False, startVersion = None,
      shortCommitMessage = True\<rparr>
     (\<lambda>m. m)
     \<lparr>changelog_file = Present ''Changes\<newline>2.0.0\<newline>=====\<newline> * Add feature\<newline>\<newline>1.0.0\<newline>=====\<newline> * old'',
      git_log = ([''a1 p0 p1#tag: v2.0.0\<newline>b2 p1#tag: v1.0.0\<newline>''], None),
      git_show = (\<lambda>h. ([''Add feature\<newline>\<newline>See merge request !7\<newline>''], Some 0)),
      write_error = None\<rparr>)
   = None \<and>
   written (mergelogga
     \<lparr>allCommits = False, overwriteChangelog = True, startVersion = None,
      shortCommitMessage = True\<rparr>
     (\<lambda>m. m)
     \<lparr>changelog_file = Present ''Changes\<newline>1.0.0\<newline>=====\<newline> * old'',
      git_log = ([''a1 p0 p1#tag: v2.0.0\<newline>''], Some 0),
      git_show = (\<lambda>h. ([''Add feature\<newline>\<newline>See merge request !7\<newline>''], Some 0)),
      write_error = None\<rparr>)
   = Some ''2.0.0\<newline>=====\<newline> * Add feature\<newline>\<newline>'' \<and>
   oldChangelogHeader (getLastVersionFromChangelog
     \<lparr>allCommits = False, overwriteChangelog = False, startVersion = None,
      shortCommitMessage = True\<rparr>
     ''Changes\<newline>1.0.0\<newline>=====\<newline> * old'') @
   oldChangelog (getLastVersionFromChangelog
     \<lparr>allCommits = False, overwriteChangelog = False, startVersion = None,
      shortCommitMessage = True\<rparr>
     ''Changes\<newline>1.0.0\<newline>=====\<newline> * old'')
   = ''Changes\<newline>1.0.0\<newline>=====\<newline> * old''"
proof -
  let ?opts = "\<lparr>allCommits = False, overwriteChangelog = False, startVersion = None,
      shortCommitMessage = True\<rparr>"
  let ?over = "\<lparr>allCommits = False, overwriteChangelog = True, startVersion = None,
      shortCommitMessage = True\<rparr>"
  let ?old1 = "''Changes\<newline>1.0.0\<newline>=====\<newline> * old''"
  let ?old2 = "''Changes\<newline>2.0.0\<newline>=====\<newline> * Add feature\<newline>\<newline>1.0.0\<newline>=====\<newline> * old''"
  let ?gs = "\<lambda>h::string. ([''Add feature\<newline>\<newline>See merge request !7\<newline>''], Some (0::nat))"
  let ?w1 = "\<lparr>changelog_file = Present ?old1,
      git_log = ([''a1 p0 p1#tag: v2.0.0\<newline>b2 p1#tag: v1.0.0\<newline>''], None),
      git_show = ?gs, write_error = None\<rparr>"
  let ?w2 = "\<lparr>changelog_file = Present ?old2,
      git_log = ([''a1 p0 p1#tag: v2.0.0\<newline>b2 p1#tag: v1.0.0\<newline>''], None),
      git_show = ?gs, write_error = None\<rparr>"
  let ?w3 = "\<lparr>changelog_file = Present ?old1,
      git_log = ([''a1 p0 p1#tag: v2.0.0\<newline>''], Some 0),
      git_show = ?gs, write_error = None\<rparr>"
  have r1: "readChangelogFile ?w1 = Inr ?old1" by (simp add: readChangelogFile_def)
  have r2: "readChangelogFile ?w2 = Inr ?old2" by (simp add: readChangelogFile_def)
  have r3: "readChangelogFile ?w3 = Inr ?old1" by (simp add: readChangelogFile_def)
  have n1: "new_changelog ?opts (\<lambda>m. m) ?w1 (untilVersion (getLastVersionFromChangelog ?opts ?old1))
      = Inr ''2.0.0\<newline>=====\<newline> * Add feature\<newline>\<newline>''" by code_simp
  have n2: "new_changelog ?opts (\<lambda>m. m) ?w2 (untilVersion (getLastVersionFromChangelog ?opts ?old2))
      = Inr []" by code_simp
  have n3: "new_changelog ?over (\<lambda>m. m) ?w3 (untilVersion (getLastVersionFromChangelog ?over ?old1))
      = Inr ''2.0.0\<newline>=====\<newline> * Add feature\<newline>\<newline>''" by code_simp
  have h1: "concat (map (\<lambda>l. l @ [LF]) (takeWhile (\<lambda>l. \<not> versionRegExp l) (split_lines ?old1)))
      = ''Changes\<newline>''" by code_simp
  have b1: "join_lines (dropWhile (\<lambda>l. \<not> versionRegExp l) (split_lines ?old1))
      = ''1.0.0\<newline>=====\<newline> * old''" by code_simp
  note t1 = C4_written_changelog [OF r1 n1, unfolded Let_def]
  note t2 = C4_written_changelog [OF r2 n2, unfolded Let_def]
  note t3 = C4_written_changelog [OF r3 n3, unfolded Let_def]
  have p1: "\<not> overwriteChangelog ?opts \<and> ?old1 \<noteq> []" by simp
  have p3: "overwriteChangelog ?over \<or> ?old1 = []" by simp
  note hb1 = t1 [THEN conjunct2, THEN conjunct2, THEN conjunct1, rule_format, OF p1]
  note hb3 = t3 [THEN conjunct2, THEN conjunct1, rule_format, OF p3]
  have A: "written (mergelogga ?opts (\<lambda>m. m) ?w1) = Some ?old2"
    using t1 [THEN conjunct1] hb1 [THEN conjunct1] hb1 [THEN conjunct2]
    by (simp only: h1 b1) simp
  have B: "written (mergelogga ?opts (\<lambda>m. m) ?w2) = None"
    using t2 [THEN conjunct1] by simp
  have C: "written (mergelogga ?over (\<lambda>m. m) ?w3) = Some ''2.0.0\<newline>=====\<newline> * Add feature\<newline>\<newline>''"
    using t3 [THEN conjunct1] hb3 [THEN conjunct1] hb3 [THEN conjunct2]
    by simp
  have p4: "\<not> overwriteChangelog ?opts \<and> \<not> has_crlf ?old1 \<and>
      (\<exists>l\<in>set (split_lines ?old1). versionRegExp l)" by code_simp
  note D = t1 [THEN conjunct2, THEN conjunct2, THEN conjunct2, rule_format, OF p4]
  from A B C D show ?thesis by (intro conjI)
qed

text \<open>
  C10: without a start version, the lines before the first tagged line do not change the
  result of the segmenter: their commits belong to no bucket, whatever follows. So they do
  not change the run either: the same text is written, or none, with and without them.
\<close>

theorem C10_pre_tag_commits_dropped:
  assumes "all_lines chunks = pre @ all_lines chunks'"
      and "\<forall>l\<in>set pre. line_version l = None"
  shows "getVersionsWithCommits all until None chunks code =
           getVersionsWithCommits all until None chunks' code \<and>
         (startVersion opts = None \<longrightarrow>
            mergelogga opts removeMd (w\<lparr>git_log := (chunks, code)\<rparr>) =
            mergelogga opts removeMd (w\<lparr>git_log := (chunks', code)\<rparr>))"
proof
  show "getVersionsWithCommits all until None chunks code =
        getVersionsWithCommits all until None chunks' code"
    using assms by (rule segmenter_ignores_pre_tag_lines)
  show "startVersion opts = None \<longrightarrow>
            mergelogga opts removeMd (w\<lparr>git_log := (chunks, code)\<rparr>) =
            mergelogga opts removeMd (w\<lparr>git_log := (chunks', code)\<rparr>)"
  proof
    assume s: "startVersion opts = None"
    have "new_changelog opts removeMd (w\<lparr>git_log := (chunks, code)\<rparr>) u =
          new_changelog opts removeMd (w\<lparr>git_log := (chunks', code)\<rparr>) u" for u
      by (rule mergelogga_git_log) (simp add: s segmenter_ignores_pre_tag_lines [OF assms])
    then show "mergelogga opts removeMd (w\<lparr>git_log := (chunks, code)\<rparr>) =
               mergelogga opts removeMd (w\<lparr>git_log := (chunks', code)\<rparr>)"
      by (simp add: mergelogga_def Let_def cong: sum.case_cong)
  qed
qed

text \<open>The theorem of C10 at a stream whose first line is a merge commit newer than any tag.\<close>

theorem C10_pre_tag_commits_dropped_witness:
  "getVersionsWithCommits False None None
     [''n1 p1 p2#HEAD -> master\<newline>a1 p0#tag: v1.0.0\<newline>b2 p1 p2#''] None
   = getVersionsWithCommits False None None [''a1 p0#tag: v1.0.0\<newline>b2 p1 p2#''] None \<and>
   mergelogga
     \<lparr>allCommits = False, overwriteChangelog = False, startVersion = None,
      shortCommitMessage = True\<rparr>
     (\<lambda>m. m)
     (\<lparr>changelog_file = Absent, git_log = ([], None),
       git_show = (\<lambda>h. ([''See merge request !1''], Some 0)), write_error = None\<rparr>
      \<lparr>git_log := ([''n1 p1 p2#HEAD -> master\<newline>a1 p0#tag: v1.0.0\<newline>b2 p1 p2#''], None)\<rparr>)
   = mergelogga
     \<lparr>allCommits = False, overwriteChangelog = False, startVersion = None,
      shortCommitMessage = True\<rparr>
     (\<lambda>m. m)
     (\<lparr>changelog_file = Absent, git_log = ([], None),
       git_show = (\<lambda>h. ([''See merge request !1''], Some 0)), write_error = None\<rparr>
      \<lparr>git_log := ([''a1 p0#tag: v1.0.0\<newline>b2 p1 p2#''], None)\<rparr>)"
proof -
  have h1: "all_lines [''n1 p1 p2#HEAD -> master\<newline>a1 p0#tag: v1.0.0\<newline>b2 p1 p2#'']
      = [''n1 p1 p2#HEAD -> master''] @ all_lines [''a1 p0#tag: v1.0.0\<newline>b2 p1 p2#'']"
    by code_simp
  have h2: "\<forall>l\<in>set [''n1 p1 p2#HEAD -> master'']. line_version l = None"
    by code_simp
  have s: "startVersion \<lparr>allCommits = False, overwriteChangelog = False, startVersion = None,
      shortCommitMessage = True\<rparr> = None" by simp
  note t = C10_pre_tag_commits_dropped [OF h1 h2]
  from t [THEN conjunct1] t [THEN conjunct2, rule_format, OF s] show ?thesis by (rule conjI)
qed

end
